theory Spec2Isabelle
  imports Main "HOL-Library.AList" "HOL-Library.Sublist"
begin

section \<open>Data model\<close>

text \<open>
  Modelled from the spec: the enum \<open>CELL_TYPE\<close> of \<open>shared/enums\<close>, which the store
  imports but which is not among the sources. The spec gives the kinds of a cell as
  path, wall, trap and stop; the store itself only tests for \<open>trap\<close> and \<open>stop\<close>.
\<close>

datatype CELL_TYPE = Path | Wall | Trap | Stop

text \<open>
  The interfaces \<open>CellCoordinates\<close> and \<open>Cell\<close>. A \<open>Cell\<close> has the fields of a
  \<open>CellCoordinates\<close> and two more, so it is the extension of that record, and a function
  on coordinates (\<open>coordKey\<close>, \<open>moveToCell\<close>) accepts a cell as TypeScript's structural
  typing allows. The fields \<open>x\<close>, \<open>y\<close>, \<open>move\<close> and \<open>value\<close> are written \<open>cx\<close>,
  \<open>cy\<close>, \<open>cmove\<close> and \<open>cvalue\<close>.
\<close>

record CellCoordinates =
  cx :: int
  cy :: int

record Cell = CellCoordinates +
  cmove :: bool
  cvalue :: CELL_TYPE

text \<open>
  Modelled from the spec: the interface \<open>ApiResponse\<close> of \<open>shared/interfaces\<close>, which is
  not among the sources. The spec's contract of the Gateway gives what a response holds
  (the position, \<open>dead\<close>, \<open>win\<close> and the two endpoints); the field names are those that
  \<open>updateGameState\<close> reads.
\<close>

record ApiResponse =
  position_x :: int
  position_y :: int
  dead :: bool
  win :: bool
  url_move :: string
  url_discover :: string

text \<open>An element of \<open>_results\<close> and of \<open>allPaths\<close>: \<open>{ path, length }\<close>.\<close>

record PathCandidate =
  pc_path :: "CellCoordinates list"
  pc_length :: nat

text \<open>The value a rejected promise carries; the store only ever prints it.\<close>

type_synonym err = string

text \<open>
  The log is a list of strings built from fixed templates. An entry is modelled by its
  template and the values filled in; the comment after each constructor quotes the
  template (accents dropped).
\<close>

datatype log_entry =
    NoPathFound                     \<comment> \<open>Aucun chemin vers la sortie trouve.\<close>
  | NoPathAvailable                 \<comment> \<open>Aucun chemin disponible vers la sortie.\<close>
  | JourneyStart nat                \<comment> \<open>Debut du trajet vers la sortie (n etapes).\<close>
  | MovedTo int int                 \<comment> \<open>Deplacement vers (x, y)\<close>
  | StepFailed int int err          \<comment> \<open>Echec deplacement vers (x, y) : err\<close>
  | TryMoveError int int err        \<comment> \<open>Erreur deplacement vers (x, y) : err\<close>
  | ExplorationStep nat int int     \<comment> \<open>Exploration (step) : (x, y)\<close>
  | ExitFound nat                   \<comment> \<open>Sortie trouvee en n etapes.\<close>
  | ReturnedTo int int              \<comment> \<open>Retour vers (x, y) apres impasse.\<close>
  | ReturnError int int err         \<comment> \<open>Erreur retour arriere vers (x, y) : err\<close>
  | PathsSummary                    \<comment> \<open>Resume des chemins vers la sortie\<close>
  | PathLine nat nat                \<comment> \<open>Chemin i : n cases.\<close>
  | ShortestLine nat                \<comment> \<open>Chemin le plus court : n cases.\<close>
  | PlayerArrived                   \<comment> \<open>Le joueur est arrive a la sortie !\<close>
  | NoSafePath                      \<comment> \<open>Exploration terminee : aucun chemin sur trouve.\<close>
  | ExplorationError err            \<comment> \<open>Erreur pendant l'exploration : err\<close>
  | DiscoverError err               \<comment> \<open>Erreur lors de la decouverte : err\<close>
  | SafeMoveError int int err       \<comment> \<open>Erreur lors du deplacement vers (x, y) : err\<close>
  | MoveError int int err           \<comment> \<open>Erreur lors du move vers (x, y) : err\<close>

subsection \<open>The remote Gateway\<close>

text \<open>
  \<open>MazeService.move\<close> and \<open>MazeService.discover\<close> are HTTP calls to a remote authority.
  The store awaits each of them under a three-second timeout, so a call either yields a
  response or is rejected (network error, illegal move or timeout alike). The authority
  is a parameter of the model: a state \<open>'w\<close> and two transition functions that answer a
  request with \<open>Inr\<close> a response or \<open>Inl\<close> an error.
\<close>

record 'w Gateway =
  gw_move :: "'w \<Rightarrow> string \<Rightarrow> int \<Rightarrow> int \<Rightarrow> (err + ApiResponse) \<times> 'w"
  gw_discover :: "'w \<Rightarrow> string \<Rightarrow> (err + Cell list) \<times> 'w"

text \<open>One exchange with the Gateway: the request and what came back.\<close>

datatype gw_event =
    MoveCall string int int "err + ApiResponse"
  | DiscoverCall string "err + Cell list"

subsection \<open>The store\<close>

text \<open>
  The signals and the flag of \<open>MazeStore\<close>. \<open>mazeService\<close> is the injected service, that
  is the state of the authority behind it; \<open>requests\<close> is not a field of the class: it
  records every exchange with the Gateway in order, so that properties of the calls
  that are issued can be stated. \<open>_map\<close> is a JavaScript \<open>Map\<close>, which keeps its keys in
  insertion order: an association list.
\<close>

record 'w MazeStore =
  mazeService :: 'w
  requests :: "gw_event list"
  s_position :: CellCoordinates
  s_map :: "(string \<times> Cell) list"
  s_isDead :: bool
  s_isWin :: bool
  s_moveUrl :: string
  s_discoverUrl :: string
  s_log :: "log_entry list"
  s_visited :: "string set"
  s_isExploring :: bool
  s_isFinish :: bool
  s_results :: "PathCandidate list"
  isExploringNow :: bool

text \<open>
  What an asynchronous method of the store comes to: the promise resolves, or it is
  rejected, or (the recursion of the search being bounded by fuel in the model) the
  bound was too small to see it settle. A rejection carries the error only: \<open>explore\<close>
  is the one method with this result type that a caller awaits, and it is never rejected.
\<close>

datatype 'a outcome = OutOfFuel | Rejected err | Resolved 'a

section \<open>Coordinate keys\<close>

text \<open>The decimal rendering of an integer, as a template literal prints a number.\<close>

fun digits_of :: "nat \<Rightarrow> string" where
  "digits_of n =
     (if n < 10 then [char_of (48 + n)]
      else digits_of (n div 10) @ [char_of (48 + n mod 10)])"

declare digits_of.simps [simp del]

definition number_to_string :: "int \<Rightarrow> string" where
  "number_to_string i =
     (if i < 0 then CHR ''-'' # digits_of (nat (- i)) else digits_of (nat i))"

definition coordKey :: "'a CellCoordinates_scheme \<Rightarrow> string" where
  "coordKey pos = number_to_string (cx pos) @ '','' @ number_to_string (cy pos)"

section \<open>State transitions of the store\<close>

definition addLog :: "log_entry \<Rightarrow> 'w MazeStore \<Rightarrow> 'w MazeStore" where
  "addLog entry s = s\<lparr>s_log := s_log s @ [entry]\<rparr>"

definition reset :: "'w MazeStore \<Rightarrow> 'w MazeStore" where
  "reset s = s\<lparr>s_position := \<lparr>cx = 0, cy = 0\<rparr>, s_map := [], s_isDead := False,
     s_isWin := False, s_moveUrl := [], s_discoverUrl := [], s_log := [],
     s_visited := {}, s_isExploring := False, s_results := [], s_isFinish := False,
     isExploringNow := False\<rparr>"

definition updateGameState :: "ApiResponse \<Rightarrow> bool \<Rightarrow> 'w MazeStore \<Rightarrow> 'w MazeStore" where
  "updateGameState data resetVisited s =
     (let s1 = s\<lparr>s_position := \<lparr>cx = position_x data, cy = position_y data\<rparr>,
                 s_isDead := dead data, s_isWin := win data,
                 s_moveUrl := url_move data, s_discoverUrl := url_discover data\<rparr>;
          key = number_to_string (position_x data) @ '','' @ number_to_string (position_y data)
      in if resetVisited then s1\<lparr>s_visited := {key}\<rparr>
         else s1\<lparr>s_visited := insert key (s_visited s1)\<rparr>)"

definition updateFromStart :: "ApiResponse \<Rightarrow> 'w MazeStore \<Rightarrow> 'w MazeStore" where
  "updateFromStart data s = updateGameState data True ((reset s)\<lparr>s_isExploring := True\<rparr>)"

definition updateFromMove :: "ApiResponse \<Rightarrow> 'w MazeStore \<Rightarrow> 'w MazeStore" where
  "updateFromMove data s = updateGameState data False s"

text \<open>
  \<open>discoverCells\<close> copies the map, sets every cell of the batch under its key (the
  template literal that \<open>coordKey\<close> returns) and publishes the copy. \<open>Map.set\<close>
  overwrites the value of a key already present, in place, and appends a new key.
\<close>

definition discoverCells :: "Cell list \<Rightarrow> 'w MazeStore \<Rightarrow> 'w MazeStore" where
  "discoverCells cells s =
     s\<lparr>s_map := foldl (\<lambda>newMap cell. AList.update (coordKey cell) cell newMap) (s_map s) cells\<rparr>"

definition finishExploration :: "log_entry \<Rightarrow> 'w MazeStore \<Rightarrow> 'w MazeStore" where
  "finishExploration message s = addLog message (s\<lparr>s_isExploring := False\<rparr>)"

section \<open>Calls to the Gateway\<close>

text \<open>
  \<open>moveToCell\<close> awaits the move and installs the response; on a rejection it logs and
  rethrows, which the model returns as \<open>Inl\<close>.
\<close>

definition moveToCell ::
  "'w Gateway \<Rightarrow> 'a CellCoordinates_scheme \<Rightarrow> 'w MazeStore \<Rightarrow> (err + unit) \<times> 'w MazeStore" where
  "moveToCell gw pos s =
     (case gw_move gw (mazeService s) (s_moveUrl s) (cx pos) (cy pos) of (r, w) \<Rightarrow>
        let s1 = s\<lparr>mazeService := w,
                   requests := requests s @ [MoveCall (s_moveUrl s) (cx pos) (cy pos) r]\<rparr>
        in (case r of
              Inr result \<Rightarrow> (Inr (), updateFromMove result s1)
            | Inl e \<Rightarrow> (Inl e, addLog (MoveError (cx pos) (cy pos) e) s1)))"

text \<open>\<open>moveTo\<close> is the same call without the log entry.\<close>

definition moveTo :: "'w Gateway \<Rightarrow> Cell \<Rightarrow> 'w MazeStore \<Rightarrow> (err + unit) \<times> 'w MazeStore" where
  "moveTo gw cell s =
     (case gw_move gw (mazeService s) (s_moveUrl s) (cx cell) (cy cell) of (r, w) \<Rightarrow>
        let s1 = s\<lparr>mazeService := w,
                   requests := requests s @ [MoveCall (s_moveUrl s) (cx cell) (cy cell) r]\<rparr>
        in (case r of
              Inr result \<Rightarrow> (Inr (), updateFromMove result s1)
            | Inl e \<Rightarrow> (Inl e, s1)))"

definition safeMoveTo :: "'w Gateway \<Rightarrow> Cell \<Rightarrow> 'w MazeStore \<Rightarrow> 'w MazeStore" where
  "safeMoveTo gw cell s =
     (case moveTo gw cell s of
        (Inr u, s1) \<Rightarrow> s1
      | (Inl e, s1) \<Rightarrow> addLog (SafeMoveError (cx cell) (cy cell) e) s1)"

definition discoverSurroundings ::
  "'w Gateway \<Rightarrow> 'w MazeStore \<Rightarrow> (err + Cell list) \<times> 'w MazeStore" where
  "discoverSurroundings gw s =
     (case gw_discover gw (mazeService s) (s_discoverUrl s) of (r, w) \<Rightarrow>
        let s1 = s\<lparr>mazeService := w,
                   requests := requests s @ [DiscoverCall (s_discoverUrl s) r]\<rparr>
        in (case r of
              Inr cells \<Rightarrow> (Inr cells, discoverCells cells s1)
            | Inl e \<Rightarrow> (Inl e, addLog (DiscoverError e) s1)))"

section \<open>The depth-first exploration\<close>

definition getCurrentCellFromPath :: "CellCoordinates list \<Rightarrow> CellCoordinates option" where
  "getCurrentCellFromPath path = (if path = [] then None else Some (last path))"

definition isVisited :: "string \<Rightarrow> string set \<Rightarrow> bool" where
  "isVisited key visited = (key \<in> visited)"

definition markVisited :: "string \<Rightarrow> string set \<Rightarrow> string set" where
  "markVisited key visited = insert key visited"

definition tryMoveToCell ::
  "'w Gateway \<Rightarrow> CellCoordinates \<Rightarrow> 'w MazeStore \<Rightarrow> bool \<times> 'w MazeStore" where
  "tryMoveToCell gw cell s =
     (case moveToCell gw cell s of
        (Inr u, s1) \<Rightarrow> (True, s1)
      | (Inl e, s1) \<Rightarrow> (False, addLog (TryMoveError (cx cell) (cy cell) e) s1))"

definition logExplorationStep :: "CellCoordinates \<Rightarrow> nat \<Rightarrow> 'w MazeStore \<Rightarrow> 'w MazeStore" where
  "logExplorationStep cell step s = addLog (ExplorationStep step (cx cell) (cy cell)) s"

definition getDiscoverableNeighbors ::
  "'w Gateway \<Rightarrow> 'w MazeStore \<Rightarrow> Cell list option \<times> 'w MazeStore" where
  "getDiscoverableNeighbors gw s =
     (case discoverSurroundings gw s of
        (Inr cells, s1) \<Rightarrow> (Some cells, s1)
      | (Inl e, s1) \<Rightarrow> (None, s1))"

definition canExploreCell :: "Cell \<Rightarrow> string \<Rightarrow> string set \<Rightarrow> bool" where
  "canExploreCell cell key visited = (key \<notin> visited \<and> cmove cell \<and> cvalue cell \<noteq> Trap)"

definition buildNextPath :: "CellCoordinates list \<Rightarrow> Cell \<Rightarrow> CellCoordinates list" where
  "buildNextPath path cell = path @ [\<lparr>cx = cx cell, cy = cy cell\<rparr>]"

definition isGoalCell :: "Cell \<Rightarrow> bool" where
  "isGoalCell cell = (cvalue cell = Stop)"

definition recordExitPath ::
  "CellCoordinates list \<Rightarrow> PathCandidate list \<Rightarrow> 'w MazeStore \<Rightarrow> PathCandidate list \<times> 'w MazeStore" where
  "recordExitPath path allPaths s =
     (allPaths @ [\<lparr>pc_path = path, pc_length = length path\<rparr>], addLog (ExitFound (length path)) s)"

definition returnToPrevious :: "'w Gateway \<Rightarrow> CellCoordinates \<Rightarrow> 'w MazeStore \<Rightarrow> 'w MazeStore" where
  "returnToPrevious gw cell s =
     (case moveToCell gw cell s of
        (Inr u, s1) \<Rightarrow> addLog (ReturnedTo (cx cell) (cy cell)) s1
      | (Inl e, s1) \<Rightarrow> addLog (ReturnError (cx cell) (cy cell) e) s1)"

text \<open>
  The three mutually recursive methods. \<open>visited\<close> and \<open>allPaths\<close> are objects that every
  frame mutates; the model passes them in and returns them with the store. The first
  argument bounds the depth of the recursion: a frame of \<open>exploreFromCell\<close> that goes on
  to its neighbours spends one unit. Reading the last element of an empty path gives
  \<open>undefined\<close>, and \<open>coordKey\<close> then throws a TypeError that nothing catches.
\<close>

function (sequential) exploreFromCell ::
    "nat \<Rightarrow> 'w Gateway \<Rightarrow> CellCoordinates list \<Rightarrow> string set \<Rightarrow> PathCandidate list \<Rightarrow>
     'w MazeStore \<Rightarrow> (string set \<times> PathCandidate list \<times> 'w MazeStore) outcome"
  and exploreNeighbors ::
    "nat \<Rightarrow> 'w Gateway \<Rightarrow> CellCoordinates \<Rightarrow> Cell list \<Rightarrow> CellCoordinates list \<Rightarrow>
     string set \<Rightarrow> PathCandidate list \<Rightarrow> 'w MazeStore \<Rightarrow>
     (string set \<times> PathCandidate list \<times> 'w MazeStore) outcome"
  and handleCellExploration ::
    "nat \<Rightarrow> 'w Gateway \<Rightarrow> CellCoordinates \<Rightarrow> Cell \<Rightarrow> CellCoordinates list \<Rightarrow>
     string set \<Rightarrow> PathCandidate list \<Rightarrow> 'w MazeStore \<Rightarrow>
     (string set \<times> PathCandidate list \<times> 'w MazeStore) outcome"
where
  "exploreFromCell 0 gw path visited allPaths s = OutOfFuel"
| "exploreFromCell (Suc n) gw path visited allPaths s =
     (case getCurrentCellFromPath path of
        None \<Rightarrow> Rejected ''TypeError''
      | Some current \<Rightarrow>
          let key = coordKey current in
          if isVisited key visited then Resolved (visited, allPaths, s)
          else
            let visited1 = markVisited key visited in
            (case tryMoveToCell gw current s of
               (False, s1) \<Rightarrow> Resolved (visited1, allPaths, s1)
             | (True, s1) \<Rightarrow>
                 let s2 = logExplorationStep current (length path) s1 in
                 (case getDiscoverableNeighbors gw s2 of
                    (None, s3) \<Rightarrow> Resolved (visited1, allPaths, s3)
                  | (Some neighbors, s3) \<Rightarrow>
                      exploreNeighbors n gw current neighbors path visited1 allPaths s3)))"
| "exploreNeighbors n gw current [] path visited allPaths s = Resolved (visited, allPaths, s)"
| "exploreNeighbors n gw current (cell # rest) path visited allPaths s =
     (case handleCellExploration n gw current cell path visited allPaths s of
        Resolved (visited1, allPaths1, s1) \<Rightarrow>
          exploreNeighbors n gw current rest path visited1 allPaths1 s1
      | Rejected e \<Rightarrow> Rejected e
      | OutOfFuel \<Rightarrow> OutOfFuel)"
| "handleCellExploration n gw current cell path visited allPaths s =
     (let nextKey = coordKey cell in
      if \<not> canExploreCell cell nextKey visited then Resolved (visited, allPaths, s)
      else
        let nextPath = buildNextPath path cell in
        if isGoalCell cell then
          (case recordExitPath nextPath allPaths s of
             (allPaths1, s1) \<Rightarrow> Resolved (visited, allPaths1, s1))
        else
          (case exploreFromCell n gw nextPath visited allPaths s of
             Resolved (visited1, allPaths1, s1) \<Rightarrow>
               Resolved (visited1, allPaths1, returnToPrevious gw current s1)
           | Rejected e \<Rightarrow> Rejected e
           | OutOfFuel \<Rightarrow> OutOfFuel))"
  by pat_completeness auto

termination
  by (relation "measures [
        (\<lambda>a. case a of Inl (n, _) \<Rightarrow> n | Inr (Inl (n, _)) \<Rightarrow> n | Inr (Inr (n, _)) \<Rightarrow> n),
        (\<lambda>a. case a of Inl _ \<Rightarrow> 0 | Inr (Inl _) \<Rightarrow> 2 | Inr (Inr _) \<Rightarrow> 1),
        (\<lambda>a. case a of Inl _ \<Rightarrow> 0 | Inr (Inl (n, gw, c, cells, _)) \<Rightarrow> length cells
                       | Inr (Inr _) \<Rightarrow> 0)]")
     auto

definition startExploration ::
  "nat \<Rightarrow> 'w Gateway \<Rightarrow> CellCoordinates \<Rightarrow> 'w MazeStore \<Rightarrow>
   (PathCandidate list \<times> 'w MazeStore) outcome" where
  "startExploration n gw start s =
     (case exploreFromCell n gw [start] {} [] s of
        Resolved (visited, allPaths, s1) \<Rightarrow> Resolved (allPaths, s1)
      | Rejected e \<Rightarrow> Rejected e
      | OutOfFuel \<Rightarrow> OutOfFuel)"

text \<open>
  \<open>logPaths\<close> sorts the array it is given in place (\<open>Array.prototype.sort\<close> is stable;
  the comparator orders by \<open>length\<close>) and returns nothing; the model returns the array
  as it is afterwards. Reading \<open>allPaths[0].length\<close> of an empty array throws, after
  the summary line has been logged.
\<close>

definition logPaths ::
  "PathCandidate list \<Rightarrow> 'w MazeStore \<Rightarrow> (err + PathCandidate list) \<times> 'w MazeStore" where
  "logPaths allPaths s =
     (let sorted_paths = sort_key pc_length allPaths;
          s1 = addLog PathsSummary s;
          s2 = foldl (\<lambda>st (i, res). addLog (PathLine (i + 1) (pc_length res)) st) s1
                 (enumerate 0 sorted_paths)
      in case sorted_paths of
           [] \<Rightarrow> (Inl ''TypeError'', s2)
         | shortest # others \<Rightarrow>
             (Inr sorted_paths, addLog (ShortestLine (pc_length shortest)) s2))"

text \<open>
  \<open>explore\<close> publishes \<open>allPaths\<close> to \<open>_results\<close> and then calls \<open>logPaths\<close> on it. The
  signal holds the very array that \<open>logPaths\<close> sorts, so when \<open>explore\<close> returns,
  \<open>_results\<close> reads the sorted array: the last update below is that aliasing.
\<close>

definition explore :: "nat \<Rightarrow> 'w Gateway \<Rightarrow> 'w MazeStore \<Rightarrow> 'w MazeStore outcome" where
  "explore n gw s =
     (let start = s_position s in
      case startExploration n gw start s of
        Resolved (allPaths, s1) \<Rightarrow>
          if allPaths = [] then Resolved (addLog NoPathFound s1)
          else
            let s2 = s1\<lparr>s_results := allPaths\<rparr> in
            (case logPaths allPaths s2 of
               (Inr allPaths1, s3) \<Rightarrow> Resolved (s3\<lparr>s_results := allPaths1\<rparr>)
             | (Inl e, s3) \<Rightarrow> Rejected e)
      | Rejected e \<Rightarrow> Rejected e
      | OutOfFuel \<Rightarrow> OutOfFuel)"

section \<open>Following the shortest path\<close>

text \<open>
  The loop of \<open>followShortestPath\<close> over the steps: \<open>True\<close> when every move succeeded,
  \<open>False\<close> when a move failed and the method returned from inside the loop.
\<close>

fun followSteps ::
  "'w Gateway \<Rightarrow> CellCoordinates list \<Rightarrow> 'w MazeStore \<Rightarrow> bool \<times> 'w MazeStore" where
  "followSteps gw [] s = (True, s)"
| "followSteps gw (step # rest) s =
     (case moveToCell gw step s of
        (Inr u, s1) \<Rightarrow> followSteps gw rest (addLog (MovedTo (cx step) (cy step)) s1)
      | (Inl e, s1) \<Rightarrow> (False, addLog (StepFailed (cx step) (cy step) e) s1))"

definition followShortestPath :: "'w Gateway \<Rightarrow> 'w MazeStore \<Rightarrow> 'w MazeStore" where
  "followShortestPath gw s =
     (case s_results s of
        [] \<Rightarrow> (addLog NoPathAvailable s)\<lparr>s_isFinish := True\<rparr>
      | shortest # others \<Rightarrow>
          let s1 = addLog (JourneyStart (pc_length shortest)) s;
              steps = drop 1 (pc_path shortest)
          in (case followSteps gw steps s1 of
                (False, s2) \<Rightarrow> s2
              | (True, s2) \<Rightarrow> (finishExploration PlayerArrived s2)\<lparr>s_isFinish := True\<rparr>))"

section \<open>The autonomous stepper\<close>

definition chooseNextMove :: "Cell list \<Rightarrow> 'w MazeStore \<Rightarrow> Cell option" where
  "chooseNextMove cells s =
     find (\<lambda>cell. cmove cell \<and> cvalue cell \<noteq> Trap
                   \<and> number_to_string (cx cell) @ '','' @ number_to_string (cy cell) \<notin> s_visited s)
       cells"

definition exploreNext :: "'w Gateway \<Rightarrow> 'w MazeStore \<Rightarrow> 'w MazeStore" where
  "exploreNext gw s =
     (if s_isWin s \<or> s_isDead s \<or> isExploringNow s then s
      else
        case discoverSurroundings gw s of
          (Inl e, s1) \<Rightarrow> finishExploration (ExplorationError e) s1
        | (Inr cells, s1) \<Rightarrow>
            (case chooseNextMove cells s1 of
               None \<Rightarrow> finishExploration NoSafePath s1
             | Some next_cell \<Rightarrow>
                 let s2 = safeMoveTo gw next_cell s1
                 in addLog (MovedTo (cx next_cell) (cy next_cell)) s2))"

text \<open>
  The effect that the constructor registers, run once: when the condition holds it sets
  the flag, calls \<open>exploreNext\<close>, and clears the flag when that promise settles.
\<close>

definition constructor_effect :: "'w Gateway \<Rightarrow> 'w MazeStore \<Rightarrow> 'w MazeStore" where
  "constructor_effect gw s =
     (if s_discoverUrl s \<noteq> [] \<and> s_isExploring s \<and> \<not> isExploringNow s then
        let s1 = s\<lparr>isExploringNow := True\<rparr>;
            s2 = exploreNext gw s1
        in s2\<lparr>isExploringNow := False\<rparr>
      else s)"

section \<open>A reference Gateway for grid mazes\<close>

text \<open>
  The authority itself is remote. For running the store on concrete mazes, this is a
  Gateway that follows the contract the store relies on: the maze is a list of cells,
  the authority's state is where the agent stands, \<open>discover\<close> answers with the cells of
  the maze next to the agent (in the order of the list), and \<open>move\<close> accepts a cell of
  the maze that may be entered and is the agent's own cell or next to it. Coordinates
  listed in \<open>move_faults\<close> reject every move onto them, and \<open>discover\<close> is rejected while
  the agent stands on a coordinate of \<open>discover_faults\<close>, as a timeout would.
\<close>

record maze =
  maze_cells :: "Cell list"
  move_faults :: "(int \<times> int) list"
  discover_faults :: "(int \<times> int) list"

definition grid_distance :: "int \<times> int \<Rightarrow> int \<times> int \<Rightarrow> int" where
  "grid_distance a b = \<bar>fst a - fst b\<bar> + \<bar>snd a - snd b\<bar>"

definition grid_move ::
  "maze \<Rightarrow> int \<times> int \<Rightarrow> string \<Rightarrow> int \<Rightarrow> int \<Rightarrow> (err + ApiResponse) \<times> (int \<times> int)" where
  "grid_move mz agent url px py =
     (case find (\<lambda>c. cx c = px \<and> cy c = py) (maze_cells mz) of
        None \<Rightarrow> (Inl ''illegal move'', agent)
      | Some c \<Rightarrow>
          if (px, py) \<in> set (move_faults mz) then (Inl ''timeout'', agent)
          else if cmove c \<and> grid_distance agent (px, py) \<le> 1 then
            (Inr \<lparr>position_x = px, position_y = py, dead = (cvalue c = Trap),
                  win = (cvalue c = Stop), url_move = ''move'', url_discover = ''discover''\<rparr>,
             (px, py))
          else (Inl ''illegal move'', agent))"

definition grid_discover ::
  "maze \<Rightarrow> int \<times> int \<Rightarrow> string \<Rightarrow> (err + Cell list) \<times> (int \<times> int)" where
  "grid_discover mz agent url =
     (if agent \<in> set (discover_faults mz) then (Inl ''timeout'', agent)
      else (Inr (filter (\<lambda>c. grid_distance agent (cx c, cy c) = 1) (maze_cells mz)), agent))"

definition grid_gateway :: "maze \<Rightarrow> (int \<times> int) Gateway" where
  "grid_gateway mz = \<lparr>gw_move = grid_move mz, gw_discover = grid_discover mz\<rparr>"

text \<open>The store right after construction, connected to an authority in state \<open>w\<close>.\<close>

definition new_store :: "'w \<Rightarrow> 'w MazeStore" where
  "new_store w = \<lparr>mazeService = w, requests = [], s_position = \<lparr>cx = 0, cy = 0\<rparr>, s_map = [],
     s_isDead = False, s_isWin = False, s_moveUrl = [], s_discoverUrl = [], s_log = [],
     s_visited = {}, s_isExploring = False, s_isFinish = False, s_results = [],
     isExploringNow = False\<rparr>"

text \<open>The response of the authority to \<open>start\<close>: the agent is at the origin.\<close>

definition start_response :: ApiResponse where
  "start_response = \<lparr>position_x = 0, position_y = 0, dead = False, win = False,
     url_move = ''move'', url_discover = ''discover''\<rparr>"

definition started_store :: "(int \<times> int) MazeStore" where
  "started_store = updateFromStart start_response (new_store (0, 0))"

definition mk_cell :: "int \<Rightarrow> int \<Rightarrow> bool \<Rightarrow> CELL_TYPE \<Rightarrow> Cell" where
  "mk_cell px py m v = \<lparr>cx = px, cy = py, cmove = m, cvalue = v\<rparr>"

definition coord :: "int \<Rightarrow> int \<Rightarrow> CellCoordinates" where
  "coord px py = \<lparr>cx = px, cy = py\<rparr>"

section \<open>Reading the record of exchanges\<close>

text \<open>An exchange failed when the Gateway answered with an error.\<close>

fun failed :: "gw_event \<Rightarrow> bool" where
  "failed (MoveCall url px py r) = isl r"
| "failed (DiscoverCall url r) = isl r"

fun is_move :: "gw_event \<Rightarrow> bool" where
  "is_move (MoveCall url px py r) = True"
| "is_move (DiscoverCall url r) = False"

text \<open>The coordinates that the move calls of a record asked for, in order.\<close>

fun move_targets :: "gw_event list \<Rightarrow> (int \<times> int) list" where
  "move_targets [] = []"
| "move_targets (MoveCall url px py r # evs) = (px, py) # move_targets evs"
| "move_targets (DiscoverCall url r # evs) = move_targets evs"

definition xy :: "'a CellCoordinates_scheme \<Rightarrow> int \<times> int" where
  "xy pos = (cx pos, cy pos)"

text \<open>The cells that the Gateway reported in the successful discover calls of a record.\<close>

fun event_cells :: "gw_event \<Rightarrow> Cell list" where
  "event_cells (DiscoverCall url (Inr cells)) = cells"
| "event_cells (DiscoverCall url (Inl e)) = []"
| "event_cells (MoveCall url px py r) = []"

definition reported :: "gw_event list \<Rightarrow> Cell set" where
  "reported evs = set (concat (map event_cells evs))"

text \<open>The cells reported to the store since its record of exchanges had \<open>k\<close> entries.\<close>

definition reported_since :: "nat \<Rightarrow> 'w MazeStore \<Rightarrow> Cell set" where
  "reported_since k s = reported (drop k (requests s))"

text \<open>The coordinates of a cell, as \<open>buildNextPath\<close> copies them.\<close>

definition coords_of :: "Cell \<Rightarrow> CellCoordinates" where
  "coords_of cell = \<lparr>cx = cx cell, cy = cy cell\<rparr>"

text \<open>
  What the search does to the store and to its two shared objects: the record of
  exchanges, the log and \<open>allPaths\<close> are only appended to, \<open>visited\<close> is only added to,
  the map keeps its keys and does not lose entries, and \<open>_results\<close> and \<open>_isFinish\<close>
  are not written.
\<close>

definition store_grows :: "'w MazeStore \<Rightarrow> 'w MazeStore \<Rightarrow> bool" where
  "store_grows s s' \<longleftrightarrow>
     prefix (requests s) (requests s') \<and> prefix (s_log s) (s_log s') \<and>
     s_results s' = s_results s \<and> s_isFinish s' = s_isFinish s \<and>
     fst ` set (s_map s) \<subseteq> fst ` set (s_map s') \<and> length (s_map s) \<le> length (s_map s')"

definition dfs_grows ::
  "string set \<times> PathCandidate list \<times> 'w MazeStore \<Rightarrow>
   string set \<times> PathCandidate list \<times> 'w MazeStore \<Rightarrow> bool" where
  "dfs_grows d d' \<longleftrightarrow>
     fst d \<subseteq> fst d' \<and> prefix (fst (snd d)) (fst (snd d')) \<and>
     store_grows (snd (snd d)) (snd (snd d'))"

text \<open>
  The path of a frame of the search, read against a set \<open>R\<close> of reported cells: it is
  the start coordinate followed by the coordinates of cells of \<open>R\<close> that may be entered
  and are neither traps nor exits. A recorded path is such a path followed by the
  coordinates of one more cell of \<open>R\<close> that may be entered and is an exit; its \<open>length\<close>
  field is the number of its coordinates, and no coordinate occurs twice in it. Nothing
  is asked of the start coordinate: it is the agent's position, and the search never
  looks at the kind of the cell it starts on.
\<close>

definition dfs_path :: "Cell set \<Rightarrow> CellCoordinates \<Rightarrow> CellCoordinates list \<Rightarrow> bool" where
  "dfs_path R start path \<longleftrightarrow>
     (\<exists>cs. path = start # map coords_of cs \<and> set cs \<subseteq> R \<and>
           (\<forall>c\<in>set cs. cmove c \<and> cvalue c \<noteq> Trap \<and> cvalue c \<noteq> Stop))"

definition exit_path :: "Cell set \<Rightarrow> CellCoordinates \<Rightarrow> PathCandidate \<Rightarrow> bool" where
  "exit_path R start p \<longleftrightarrow>
     pc_length p = length (pc_path p) \<and> distinct (pc_path p) \<and>
     (\<exists>cs e. pc_path p = start # map coords_of cs @ [coords_of e] \<and>
             set cs \<subseteq> R \<and> e \<in> R \<and>
             (\<forall>c\<in>set cs. cmove c \<and> cvalue c \<noteq> Trap \<and> cvalue c \<noteq> Stop) \<and>
             cmove e \<and> cvalue e = Stop)"


text \<open>
  The frame of \<open>exploreFromCell\<close> for \<open>current\<close>, entered in store \<open>s\<close>, meets a failure
  of the Gateway: the move onto \<open>current\<close> is rejected, or it is accepted and the
  discover call that follows is rejected.
\<close>

definition frame_call_fails :: "'w Gateway \<Rightarrow> CellCoordinates \<Rightarrow> 'w MazeStore \<Rightarrow> bool" where
  "frame_call_fails gw current s =
     (case gw_move gw (mazeService s) (s_moveUrl s) (cx current) (cy current) of
        (Inl e, w) \<Rightarrow> True
      | (Inr result, w) \<Rightarrow> isl (fst (gw_discover gw w (url_discover result))))"

text \<open>The log entries that report a failed call.\<close>

fun is_error_entry :: "log_entry \<Rightarrow> bool" where
  "is_error_entry (StepFailed px py e) = True"
| "is_error_entry (TryMoveError px py e) = True"
| "is_error_entry (ReturnError px py e) = True"
| "is_error_entry (ExplorationError e) = True"
| "is_error_entry (DiscoverError e) = True"
| "is_error_entry (SafeMoveError px py e) = True"
| "is_error_entry (MoveError px py e) = True"
| "is_error_entry entry = False"

text \<open>Every cell that the Gateway ever reports has its key in \<open>K\<close>: the maze is finite.\<close>

definition reports_within :: "'w Gateway \<Rightarrow> string set \<Rightarrow> bool" where
  "reports_within gw K \<longleftrightarrow>
     (\<forall>w url cells w'. gw_discover gw w url = (Inr cells, w') \<longrightarrow> coordKey ` set cells \<subseteq> K)"

text \<open>The paths that the search of \<open>explore\<close> returns to it, when it returns.\<close>

definition paths_found :: "nat \<Rightarrow> 'w Gateway \<Rightarrow> 'w MazeStore \<Rightarrow> PathCandidate list option" where
  "paths_found n gw s =
     (case startExploration n gw (s_position s) s of
        Resolved (allPaths, s1) \<Rightarrow> Some allPaths
      | Rejected e \<Rightarrow> None
      | OutOfFuel \<Rightarrow> None)"

section \<open>Example mazes\<close>

text \<open>A corridor of three cells with the exit at its end.\<close>

definition corridor :: maze where
  "corridor = \<lparr>maze_cells = [mk_cell 0 0 True Path, mk_cell 1 0 True Path, mk_cell 2 0 True Stop],
     move_faults = [], discover_faults = []\<rparr>"

text \<open>A corridor of five cells, and the same corridor with its third cell out of reach.\<close>

definition long_corridor :: maze where
  "long_corridor = \<lparr>maze_cells = [mk_cell 0 0 True Path, mk_cell 1 0 True Path,
       mk_cell 2 0 True Path, mk_cell 3 0 True Path, mk_cell 4 0 True Stop],
     move_faults = [], discover_faults = []\<rparr>"

definition blocked_corridor :: maze where
  "blocked_corridor = long_corridor\<lparr>move_faults := [(2, 0)]\<rparr>"

text \<open>
  Two exits: the search reaches the farther one first. And a corridor whose entry cell
  rejects every move onto it.
\<close>

definition two_exits :: maze where
  "two_exits = \<lparr>maze_cells = [mk_cell 0 0 True Path, mk_cell 1 0 True Path, mk_cell 2 0 True Stop,
       mk_cell 0 1 True Stop],
     move_faults = [], discover_faults = []\<rparr>"

definition closed_entry :: maze where
  "closed_entry = corridor\<lparr>move_faults := [(0, 0)]\<rparr>"



text \<open>
  A ring of four cells around a wall, with the exit beside the entry's second
  neighbour: the exit is two steps from the entry, and four steps the other way round.
\<close>

definition ring_maze :: maze where
  "ring_maze = \<lparr>maze_cells = [mk_cell 0 0 True Path, mk_cell 1 0 True Path, mk_cell 1 1 True Path,
       mk_cell 0 1 True Path, mk_cell 0 2 True Stop],
     move_faults = [], discover_faults = []\<rparr>"

text \<open>
  A fork: an exit right beside the entry, a branch on which \<open>discover\<close> times out at its
  second cell, and a branch that leads to a second exit.
\<close>

definition fork_maze :: maze where
  "fork_maze = \<lparr>maze_cells = [mk_cell 0 0 True Path, mk_cell 0 (-1) True Stop,
       mk_cell 1 0 True Path, mk_cell 2 0 True Path, mk_cell 3 0 True Stop,
       mk_cell 0 1 True Path, mk_cell 0 2 True Stop],
     move_faults = [], discover_faults = [(2, 0)]\<rparr>"

text \<open>The store of a game on the fork once the agent has stepped onto its first branch.\<close>

definition fork_branch_store :: "(int \<times> int) MazeStore" where
  "fork_branch_store = snd (tryMoveToCell (grid_gateway fork_maze) (coord 1 0) started_store)"

text \<open>
  A safe walk through a maze from a start coordinate: it ends on an exit, every cell of it
  may be entered and is no trap, consecutive cells are neighbours, and no coordinate
  occurs twice.
\<close>

definition cell_at :: "maze \<Rightarrow> CellCoordinates \<Rightarrow> Cell option" where
  "cell_at mz pos = find (\<lambda>c. cx c = cx pos \<and> cy c = cy pos) (maze_cells mz)"

fun adjacent_steps :: "CellCoordinates list \<Rightarrow> bool" where
  "adjacent_steps (a # b # rest) = (grid_distance (xy a) (xy b) = 1 \<and> adjacent_steps (b # rest))"
| "adjacent_steps rest = True"

definition safe_walk :: "maze \<Rightarrow> CellCoordinates \<Rightarrow> CellCoordinates list \<Rightarrow> bool" where
  "safe_walk mz start walk \<longleftrightarrow>
     walk \<noteq> [] \<and> hd walk = start \<and> distinct walk \<and> adjacent_steps walk \<and>
     list_all (\<lambda>pos. case cell_at mz pos of
                        None \<Rightarrow> False | Some c \<Rightarrow> cmove c \<and> cvalue c \<noteq> Trap) walk \<and>
     (case cell_at mz (last walk) of None \<Rightarrow> False | Some c \<Rightarrow> cvalue c = Stop)"

text \<open>The store after a game was started on a maze and \<open>explore\<close> has run.\<close>

definition explored_store :: "maze \<Rightarrow> (int \<times> int) MazeStore" where
  "explored_store mz =
     (case explore 10 (grid_gateway mz) started_store of
        Resolved s \<Rightarrow> s | Rejected e \<Rightarrow> started_store | OutOfFuel \<Rightarrow> started_store)"

section \<open>Basic facts about the transitions\<close>

lemma addLog_fields [simp]:
  "requests (addLog e s) = requests s"
  "s_log (addLog e s) = s_log s @ [e]"
  "s_results (addLog e s) = s_results s"
  "mazeService (addLog e s) = mazeService s"
  "s_moveUrl (addLog e s) = s_moveUrl s"
  "s_discoverUrl (addLog e s) = s_discoverUrl s"
  "s_position (addLog e s) = s_position s"
  "s_map (addLog e s) = s_map s"
  "s_visited (addLog e s) = s_visited s"
  "s_isFinish (addLog e s) = s_isFinish s"
  "s_isExploring (addLog e s) = s_isExploring s"
  "isExploringNow (addLog e s) = isExploringNow s"
  "s_isDead (addLog e s) = s_isDead s"
  "s_isWin (addLog e s) = s_isWin s"
  by (simp_all add: addLog_def)

lemma updateFromMove_fields [simp]:
  "requests (updateFromMove d s) = requests s"
  "s_log (updateFromMove d s) = s_log s"
  "s_results (updateFromMove d s) = s_results s"
  "mazeService (updateFromMove d s) = mazeService s"
  "s_moveUrl (updateFromMove d s) = url_move d"
  "s_discoverUrl (updateFromMove d s) = url_discover d"
  "s_position (updateFromMove d s) = \<lparr>cx = position_x d, cy = position_y d\<rparr>"
  "s_map (updateFromMove d s) = s_map s"
  "s_isFinish (updateFromMove d s) = s_isFinish s"
  "s_isExploring (updateFromMove d s) = s_isExploring s"
  "isExploringNow (updateFromMove d s) = isExploringNow s"
  by (simp_all add: updateFromMove_def updateGameState_def Let_def)

text \<open>What one call of \<open>moveToCell\<close> does, by the answer of the Gateway.\<close>

lemma moveToCell_Inr:
  assumes "gw_move gw (mazeService s) (s_moveUrl s) (cx pos) (cy pos) = (Inr result, w)"
  shows "moveToCell gw pos s =
    (Inr (), updateFromMove result (s\<lparr>mazeService := w,
       requests := requests s @ [MoveCall (s_moveUrl s) (cx pos) (cy pos) (Inr result)]\<rparr>))"
  using assms by (simp add: moveToCell_def)

lemma moveToCell_Inl:
  assumes "gw_move gw (mazeService s) (s_moveUrl s) (cx pos) (cy pos) = (Inl e, w)"
  shows "moveToCell gw pos s =
    (Inl e, addLog (MoveError (cx pos) (cy pos) e) (s\<lparr>mazeService := w,
       requests := requests s @ [MoveCall (s_moveUrl s) (cx pos) (cy pos) (Inl e)]\<rparr>))"
  using assms by (simp add: moveToCell_def)

lemma moveToCell_cases:
  obtains (ok) result w where
      "gw_move gw (mazeService s) (s_moveUrl s) (cx pos) (cy pos) = (Inr result, w)"
      "moveToCell gw pos s =
        (Inr (), updateFromMove result (s\<lparr>mazeService := w,
           requests := requests s @ [MoveCall (s_moveUrl s) (cx pos) (cy pos) (Inr result)]\<rparr>))"
  | (fail) e w where
      "gw_move gw (mazeService s) (s_moveUrl s) (cx pos) (cy pos) = (Inl e, w)"
      "moveToCell gw pos s =
        (Inl e, addLog (MoveError (cx pos) (cy pos) e) (s\<lparr>mazeService := w,
           requests := requests s @ [MoveCall (s_moveUrl s) (cx pos) (cy pos) (Inl e)]\<rparr>))"
proof (cases "gw_move gw (mazeService s) (s_moveUrl s) (cx pos) (cy pos)")
  case (Pair r w)
  show thesis
  proof (cases r)
    case (Inl e)
    have g: "gw_move gw (mazeService s) (s_moveUrl s) (cx pos) (cy pos) = (Inl e, w)"
      using Pair Inl by simp
    show thesis by (rule fail [OF g moveToCell_Inl [OF g]])
  next
    case (Inr result)
    have g: "gw_move gw (mazeService s) (s_moveUrl s) (cx pos) (cy pos) = (Inr result, w)"
      using Pair Inr by simp
    show thesis by (rule ok [OF g moveToCell_Inr [OF g]])
  qed
qed

lemma move_targets_append [simp]: "move_targets (xs @ ys) = move_targets xs @ move_targets ys"
  by (induction xs rule: move_targets.induct) simp_all

lemma moveToCell_requests:
  "requests (snd (moveToCell gw pos s)) =
     requests s @ [MoveCall (s_moveUrl s) (cx pos) (cy pos)
                     (fst (gw_move gw (mazeService s) (s_moveUrl s) (cx pos) (cy pos)))]"
  by (cases rule: moveToCell_cases [of gw s pos]) simp_all

lemma moveToCell_keeps:
  "s_results (snd (moveToCell gw pos s)) = s_results s"
  "s_isFinish (snd (moveToCell gw pos s)) = s_isFinish s"
  "s_isExploring (snd (moveToCell gw pos s)) = s_isExploring s"
  "isExploringNow (snd (moveToCell gw pos s)) = isExploringNow s"
  "s_map (snd (moveToCell gw pos s)) = s_map s"
  by (cases rule: moveToCell_cases [of gw s pos]; simp)+

lemma moveToCell_log:
  "s_log (snd (moveToCell gw pos s)) =
     s_log s @ (case fst (moveToCell gw pos s) of
                  Inl e \<Rightarrow> [MoveError (cx pos) (cy pos) e] | Inr u \<Rightarrow> [])"
  by (cases rule: moveToCell_cases [of gw s pos]) simp_all

lemma moveToCell_isl:
  "isl (fst (moveToCell gw pos s)) =
     isl (fst (gw_move gw (mazeService s) (s_moveUrl s) (cx pos) (cy pos)))"
  by (cases rule: moveToCell_cases [of gw s pos]) simp_all

text \<open>The loop over the steps of the chosen path.\<close>

lemma followSteps_keeps:
  "followSteps gw steps s = (ok, s') \<Longrightarrow>
     s_results s' = s_results s \<and> s_isFinish s' = s_isFinish s \<and>
     s_isExploring s' = s_isExploring s \<and> s_map s' = s_map s"
proof (induction steps arbitrary: s)
  case Nil
  then show ?case by simp
next
  case (Cons step rest)
  obtain r s1 where m: "moveToCell gw step s = (r, s1)" by (cases "moveToCell gw step s")
  have k: "s_results s1 = s_results s" "s_isFinish s1 = s_isFinish s"
    "s_isExploring s1 = s_isExploring s" "s_map s1 = s_map s"
    using moveToCell_keeps [of gw step s] m by simp_all
  show ?case
  proof (cases r)
    case (Inl e)
    with Cons.prems m k show ?thesis by auto
  next
    case (Inr u)
    with Cons.prems m have "followSteps gw rest (addLog (MovedTo (cx step) (cy step)) s1) = (ok, s')"
      by simp
    from Cons.IH [OF this] k show ?thesis by simp
  qed
qed

lemma followSteps_success:
  "followSteps gw steps s = (True, s') \<Longrightarrow>
     \<exists>evs. requests s' = requests s @ evs \<and> move_targets evs = map xy steps \<and>
           length evs = length steps \<and> (\<forall>ev\<in>set evs. is_move ev \<and> \<not> failed ev) \<and>
           s_log s' = s_log s @ map (\<lambda>c. MovedTo (cx c) (cy c)) steps"
proof (induction steps arbitrary: s)
  case Nil
  then show ?case by simp
next
  case (Cons step rest)
  obtain r s1 where m: "moveToCell gw step s = (r, s1)" by (cases "moveToCell gw step s")
  let ?ev = "MoveCall (s_moveUrl s) (cx step) (cy step)
               (fst (gw_move gw (mazeService s) (s_moveUrl s) (cx step) (cy step)))"
  have rq: "requests s1 = requests s @ [?ev]"
    using moveToCell_requests [of gw step s] m by simp
  show ?case
  proof (cases r)
    case (Inl e)
    with Cons.prems m show ?thesis by simp
  next
    case (Inr u)
    with Cons.prems m have f: "followSteps gw rest (addLog (MovedTo (cx step) (cy step)) s1) = (True, s')"
      by simp
    have lg: "s_log s1 = s_log s" using moveToCell_log [of gw step s] m Inr by simp
    have nf: "\<not> failed ?ev" using moveToCell_isl [of gw step s] m Inr by simp
    from Cons.IH [OF f] obtain evs where
      e: "requests s' = requests s1 @ evs" "move_targets evs = map xy rest"
         "length evs = length rest" "\<forall>ev\<in>set evs. is_move ev \<and> \<not> failed ev"
         "s_log s' = s_log s1 @ [MovedTo (cx step) (cy step)] @ map (\<lambda>c. MovedTo (cx c) (cy c)) rest"
      by auto
    show ?thesis
    proof (intro exI [of _ "?ev # evs"] conjI)
      show "requests s' = requests s @ ?ev # evs" using e(1) rq by simp
      show "move_targets (?ev # evs) = map xy (step # rest)" using e(2) by (simp add: xy_def)
      show "length (?ev # evs) = length (step # rest)" using e(3) by simp
      show "\<forall>ev\<in>set (?ev # evs). is_move ev \<and> \<not> failed ev" using e(4) nf by simp
      show "s_log s' = s_log s @ map (\<lambda>c. MovedTo (cx c) (cy c)) (step # rest)"
        using e(5) lg by simp
    qed
  qed
qed

lemma followSteps_failure:
  "followSteps gw steps s = (False, s') \<Longrightarrow>
     \<exists>evs k e. requests s' = requests s @ evs \<and> k < length steps \<and>
           move_targets evs = take (Suc k) (map xy steps) \<and> length evs = Suc k \<and>
           (\<forall>ev\<in>set evs. is_move ev) \<and> (\<forall>ev\<in>set (butlast evs). \<not> failed ev) \<and>
           failed (last evs) \<and>
           s_log s' = s_log s @ map (\<lambda>c. MovedTo (cx c) (cy c)) (take k steps)
                        @ [MoveError (cx (steps ! k)) (cy (steps ! k)) e,
                           StepFailed (cx (steps ! k)) (cy (steps ! k)) e]"
proof (induction steps arbitrary: s)
  case Nil
  then show ?case by simp
next
  case (Cons step rest)
  obtain r s1 where m: "moveToCell gw step s = (r, s1)" by (cases "moveToCell gw step s")
  let ?ev = "MoveCall (s_moveUrl s) (cx step) (cy step)
               (fst (gw_move gw (mazeService s) (s_moveUrl s) (cx step) (cy step)))"
  have rq: "requests s1 = requests s @ [?ev]"
    using moveToCell_requests [of gw step s] m by simp
  show ?case
  proof (cases r)
    case (Inl e)
    with Cons.prems m have s': "s' = addLog (StepFailed (cx step) (cy step) e) s1" by simp
    have lg: "s_log s1 = s_log s @ [MoveError (cx step) (cy step) e]"
      using moveToCell_log [of gw step s] m Inl by simp
    have fl: "failed ?ev" using moveToCell_isl [of gw step s] m Inl by simp
    show ?thesis
    proof (intro exI [of _ "[?ev]"] exI [of _ "0::nat"] exI [of _ e] conjI)
      show "requests s' = requests s @ [?ev]" using s' rq by simp
      show "s_log s' = s_log s @ map (\<lambda>c. MovedTo (cx c) (cy c)) (take 0 (step # rest))
              @ [MoveError (cx ((step # rest) ! 0)) (cy ((step # rest) ! 0)) e,
                 StepFailed (cx ((step # rest) ! 0)) (cy ((step # rest) ! 0)) e]"
        using s' lg by simp
    qed (use fl in \<open>simp_all add: xy_def\<close>)
  next
    case (Inr u)
    with Cons.prems m have f: "followSteps gw rest (addLog (MovedTo (cx step) (cy step)) s1) = (False, s')"
      by simp
    have lg: "s_log s1 = s_log s" using moveToCell_log [of gw step s] m Inr by simp
    have nf: "\<not> failed ?ev" using moveToCell_isl [of gw step s] m Inr by simp
    from Cons.IH [OF f] obtain evs k e where
      e: "requests s' = requests s1 @ evs" "k < length rest"
         "move_targets evs = take (Suc k) (map xy rest)" "length evs = Suc k"
         "\<forall>ev\<in>set evs. is_move ev" "\<forall>ev\<in>set (butlast evs). \<not> failed ev" "failed (last evs)"
         "s_log s' = s_log s1 @ [MovedTo (cx step) (cy step)]
            @ map (\<lambda>c. MovedTo (cx c) (cy c)) (take k rest)
            @ [MoveError (cx (rest ! k)) (cy (rest ! k)) e,
               StepFailed (cx (rest ! k)) (cy (rest ! k)) e]"
      by auto
    have ne: "evs \<noteq> []" using e(4) by auto
    show ?thesis
    proof (intro exI [of _ "?ev # evs"] exI [of _ "Suc k"] exI [of _ e] conjI)
      show "requests s' = requests s @ ?ev # evs" using e(1) rq by simp
      show "Suc k < length (step # rest)" using e(2) by simp
      show "move_targets (?ev # evs) = take (Suc (Suc k)) (map xy (step # rest))"
        using e(3) by (simp add: xy_def)
      show "length (?ev # evs) = Suc (Suc k)" using e(4) by simp
      show "\<forall>ev\<in>set (?ev # evs). is_move ev" using e(5) by simp
      show "\<forall>ev\<in>set (butlast (?ev # evs)). \<not> failed ev" using e(6) nf ne by simp
      show "failed (last (?ev # evs))" using e(7) ne by simp
      show "s_log s' = s_log s @ map (\<lambda>c. MovedTo (cx c) (cy c)) (take (Suc k) (step # rest))
              @ [MoveError (cx ((step # rest) ! Suc k)) (cy ((step # rest) ! Suc k)) e,
                 StepFailed (cx ((step # rest) ! Suc k)) (cy ((step # rest) ! Suc k)) e]"
        using e(8) lg by simp
    qed
  qed
qed

section \<open>Setting a batch of cells in the map\<close>

lemma fold_update_keys:
  "fst ` set (foldl (\<lambda>newMap cell. AList.update (coordKey cell) cell newMap) m cells)
     = fst ` set m \<union> coordKey ` set cells"
  by (induction cells arbitrary: m) (auto simp: dom_update)

lemma fold_update_length:
  "length m \<le> length (foldl (\<lambda>newMap cell. AList.update (coordKey cell) cell newMap) m cells)"
proof (induction cells arbitrary: m)
  case Nil
  then show ?case by simp
next
  case (Cons c cs)
  have "length m \<le> length (AList.update (coordKey c) c m)"
    by (induction m) auto
  also have "\<dots> \<le> length (foldl (\<lambda>newMap cell. AList.update (coordKey cell) cell newMap)
                          (AList.update (coordKey c) c m) cs)"
    by (rule Cons.IH)
  finally show ?case by simp
qed

lemma fold_update_distinct:
  "distinct (map fst m) \<Longrightarrow>
   distinct (map fst (foldl (\<lambda>newMap cell. AList.update (coordKey cell) cell newMap) m cells))"
  by (induction cells arbitrary: m) (simp_all add: distinct_update)

lemma find_SomeD: "find P xs = Some x \<Longrightarrow> x \<in> set xs \<and> P x"
  by (induction xs) (auto split: if_splits)

lemma find_snoc:
  "find P (xs @ [x]) = (case find P xs of Some y \<Rightarrow> Some y | None \<Rightarrow> if P x then Some x else None)"
  by (induction xs) auto

lemma fold_update_lookup:
  "map_of (foldl (\<lambda>newMap cell. AList.update (coordKey cell) cell newMap) m cells) k
     = (case find (\<lambda>c. coordKey c = k) (rev cells) of
          Some c \<Rightarrow> Some c | None \<Rightarrow> map_of m k)"
proof (induction cells arbitrary: m)
  case Nil
  then show ?case by simp
next
  case (Cons c cs)
  show ?case
    by (simp add: Cons.IH find_snoc update_conv' split: option.splits)
qed

lemma discoverCells_map:
  "s_map (discoverCells cells s)
     = foldl (\<lambda>newMap cell. AList.update (coordKey cell) cell newMap) (s_map s) cells"
  by (simp add: discoverCells_def)

section \<open>Properties of \<open>followShortestPath\<close>\<close>

lemma followShortestPath_Cons:
  assumes "s_results s = shortest # others"
  shows "followShortestPath gw s =
    (case followSteps gw (drop 1 (pc_path shortest)) (addLog (JourneyStart (pc_length shortest)) s) of
       (False, s2) \<Rightarrow> s2
     | (True, s2) \<Rightarrow> (finishExploration PlayerArrived s2)\<lparr>s_isFinish := True\<rparr>)"
  using assms by (simp add: followShortestPath_def Let_def)

text \<open>
  Claim C5. When \<open>_results\<close> is empty, \<open>followShortestPath\<close> appends the entry
  ``no path available'' to the log and sets \<open>_isFinish\<close>; it issues no call to the
  Gateway (the record of exchanges is unchanged) and leaves the position, the map and
  the visited set as they were.
\<close>

theorem followShortestPath_without_results:
  assumes "s_results s = []"
  shows "s_log (followShortestPath gw s) = s_log s @ [NoPathAvailable]
       \<and> s_isFinish (followShortestPath gw s)
       \<and> requests (followShortestPath gw s) = requests s
       \<and> s_position (followShortestPath gw s) = s_position s
       \<and> s_map (followShortestPath gw s) = s_map s
       \<and> s_visited (followShortestPath gw s) = s_visited s"
  using assms by (simp add: followShortestPath_def)

theorem followShortestPath_without_results_witness:
  "s_results started_store = []
   \<and> s_log (followShortestPath (grid_gateway corridor) started_store) = s_log started_store @ [NoPathAvailable]
   \<and> s_isFinish (followShortestPath (grid_gateway corridor) started_store)
   \<and> requests (followShortestPath (grid_gateway corridor) started_store) = requests started_store
   \<and> s_position (followShortestPath (grid_gateway corridor) started_store) = s_position started_store
   \<and> s_map (followShortestPath (grid_gateway corridor) started_store) = s_map started_store
   \<and> s_visited (followShortestPath (grid_gateway corridor) started_store) = s_visited started_store"
proof -
  have h: "s_results started_store = []" by code_simp
  show ?thesis
    using h followShortestPath_without_results [OF h, of "grid_gateway corridor"] by (rule conjI)
qed

text \<open>
  Claim C6. When \<open>_results\<close> is not empty and one of the exchanges of a run of
  \<open>followShortestPath\<close> failed, then the failed exchange is the last one of the run: the
  moves asked for are the first \<open>k + 1\<close> steps of the path, all but the last succeeded,
  no move is issued for a later coordinate, the last entry of the log reports the
  failure of step \<open>k\<close>, and \<open>_isFinish\<close> is left as it was (false when it was false).
\<close>

theorem followShortestPath_stops_at_failed_move:
  assumes "s_results s = shortest # others"
    and "requests (followShortestPath gw s) = requests s @ evs"
    and "\<exists>ev\<in>set evs. failed ev"
  shows "\<exists>k e. k < length (drop 1 (pc_path shortest))
       \<and> move_targets evs = take (Suc k) (map xy (drop 1 (pc_path shortest)))
       \<and> length evs = Suc k
       \<and> (\<forall>ev\<in>set (butlast evs). \<not> failed ev) \<and> failed (last evs)
       \<and> last (s_log (followShortestPath gw s))
           = StepFailed (cx (drop 1 (pc_path shortest) ! k)) (cy (drop 1 (pc_path shortest) ! k)) e
       \<and> s_isFinish (followShortestPath gw s) = s_isFinish s"
proof -
  let ?steps = "drop 1 (pc_path shortest)"
  let ?s1 = "addLog (JourneyStart (pc_length shortest)) s"
  obtain ok s2 where f: "followSteps gw ?steps ?s1 = (ok, s2)"
    by (cases "followSteps gw ?steps ?s1")
  show ?thesis
  proof (cases ok)
    case True
    with f have s': "followShortestPath gw s = (finishExploration PlayerArrived s2)\<lparr>s_isFinish := True\<rparr>"
      by (simp add: followShortestPath_Cons [OF assms(1)])
    from f True have f': "followSteps gw ?steps ?s1 = (True, s2)" by simp
    from followSteps_success [OF f'] obtain evs' where
      e: "requests s2 = requests ?s1 @ evs'" "\<forall>ev\<in>set evs'. is_move ev \<and> \<not> failed ev"
      by auto
    have "requests (followShortestPath gw s) = requests s @ evs'"
      using s' e(1) by (simp add: finishExploration_def)
    with assms(2) have "evs = evs'" by simp
    with e(2) assms(3) show ?thesis by blast
  next
    case False
    with f have s': "followShortestPath gw s = s2"
      by (simp add: followShortestPath_Cons [OF assms(1)])
    from f False have f': "followSteps gw ?steps ?s1 = (False, s2)" by simp
    from followSteps_failure [OF f'] obtain evs' k e where
      e: "requests s2 = requests ?s1 @ evs'" "k < length ?steps"
         "move_targets evs' = take (Suc k) (map xy ?steps)" "length evs' = Suc k"
         "\<forall>ev\<in>set (butlast evs'). \<not> failed ev" "failed (last evs')"
         "s_log s2 = s_log ?s1 @ map (\<lambda>c. MovedTo (cx c) (cy c)) (take k ?steps)
                        @ [MoveError (cx (?steps ! k)) (cy (?steps ! k)) e,
                           StepFailed (cx (?steps ! k)) (cy (?steps ! k)) e]"
      by blast
    have eq: "evs = evs'" using s' e(1) assms(2) by simp
    have fin: "s_isFinish s2 = s_isFinish s"
      using followSteps_keeps [OF f] by simp
    have lst: "last (s_log s2) = StepFailed (cx (?steps ! k)) (cy (?steps ! k)) e"
      using e(7) by simp
    show ?thesis
      using e(2-6) eq s' fin lst by blast
  qed
qed

theorem followShortestPath_stops_at_failed_move_witness:
  "s_results (explored_store long_corridor)
     = [\<lparr>pc_path = [coord 0 0, coord 1 0, coord 2 0, coord 3 0, coord 4 0], pc_length = 5\<rparr>]
   \<and> requests (followShortestPath (grid_gateway blocked_corridor) (explored_store long_corridor))
     = requests (explored_store long_corridor)
       @ [MoveCall ''move'' 1 0 (Inr \<lparr>position_x = 1, position_y = 0, dead = False, win = False,
                                      url_move = ''move'', url_discover = ''discover''\<rparr>),
          MoveCall ''move'' 2 0 (Inl ''timeout'')]
   \<and> failed (MoveCall ''move'' 2 0 (Inl ''timeout''))
   \<and> last (s_log (followShortestPath (grid_gateway blocked_corridor) (explored_store long_corridor)))
     = StepFailed 2 0 ''timeout''
   \<and> \<not> s_isFinish (explored_store long_corridor)
   \<and> \<not> s_isFinish (followShortestPath (grid_gateway blocked_corridor) (explored_store long_corridor))"
proof -
  let ?p = "\<lparr>pc_path = [coord 0 0, coord 1 0, coord 2 0, coord 3 0, coord 4 0], pc_length = 5\<rparr>"
  let ?s = "explored_store long_corridor"
  let ?gw = "grid_gateway blocked_corridor"
  let ?evs = "[MoveCall ''move'' 1 0 (Inr \<lparr>position_x = 1, position_y = 0, dead = False,
                  win = False, url_move = ''move'', url_discover = ''discover''\<rparr>),
               MoveCall ''move'' 2 0 (Inl ''timeout'')]"
  have h1: "s_results ?s = ?p # []" by code_simp
  have h2: "requests (followShortestPath ?gw ?s) = requests ?s @ ?evs" by code_simp
  have h3: "\<exists>ev\<in>set ?evs. failed ev" by simp
  have l: "last (s_log (followShortestPath ?gw ?s)) = StepFailed 2 0 ''timeout''" by code_simp
  have f: "\<not> s_isFinish ?s" by code_simp
  from followShortestPath_stops_at_failed_move [OF h1 h2 h3]
  have "s_isFinish (followShortestPath ?gw ?s) = s_isFinish ?s" by blast
  with h1 h2 l f show ?thesis by simp
qed

text \<open>
  Claim C7. When \<open>_results\<close> is not empty, \<open>followShortestPath\<close> takes its first element
  and issues only move calls, one per coordinate of that path after the first and in
  the order of the path. When none of them fails the run has issued a move for every
  such coordinate, that is \<open>length - 1\<close> moves; it then logs the arrival and sets
  \<open>_isFinish\<close>.
\<close>

theorem followShortestPath_walks_first_result:
  assumes "s_results s = shortest # others"
  shows "\<exists>evs. requests (followShortestPath gw s) = requests s @ evs
       \<and> (\<forall>ev\<in>set evs. is_move ev)
       \<and> prefix (move_targets evs) (map xy (drop 1 (pc_path shortest)))
       \<and> ((\<forall>ev\<in>set evs. \<not> failed ev) \<longrightarrow>
            move_targets evs = map xy (drop 1 (pc_path shortest))
          \<and> length evs = length (pc_path shortest) - 1
          \<and> last (s_log (followShortestPath gw s)) = PlayerArrived
          \<and> s_isFinish (followShortestPath gw s))"
proof -
  let ?steps = "drop 1 (pc_path shortest)"
  let ?s1 = "addLog (JourneyStart (pc_length shortest)) s"
  obtain ok s2 where f: "followSteps gw ?steps ?s1 = (ok, s2)"
    by (cases "followSteps gw ?steps ?s1")
  show ?thesis
  proof (cases ok)
    case True
    with f have s': "followShortestPath gw s = (finishExploration PlayerArrived s2)\<lparr>s_isFinish := True\<rparr>"
      by (simp add: followShortestPath_Cons [OF assms(1)])
    from f True have f': "followSteps gw ?steps ?s1 = (True, s2)" by simp
    from followSteps_success [OF f'] obtain evs where
      e: "requests s2 = requests ?s1 @ evs" "move_targets evs = map xy ?steps"
         "length evs = length ?steps" "\<forall>ev\<in>set evs. is_move ev \<and> \<not> failed ev"
      by auto
    show ?thesis
    proof (intro exI [of _ evs] conjI impI)
      show "requests (followShortestPath gw s) = requests s @ evs"
        using s' e(1) by (simp add: finishExploration_def)
      show "\<forall>ev\<in>set evs. is_move ev" using e(4) by simp
      show "prefix (move_targets evs) (map xy ?steps)" using e(2) by simp
      show "move_targets evs = map xy ?steps" by (rule e(2))
      show "length evs = length (pc_path shortest) - 1" using e(3) by simp
      show "last (s_log (followShortestPath gw s)) = PlayerArrived"
        using s' by (simp add: finishExploration_def)
      show "s_isFinish (followShortestPath gw s)" using s' by simp
    qed
  next
    case False
    with f have s': "followShortestPath gw s = s2"
      by (simp add: followShortestPath_Cons [OF assms(1)])
    from f False have f': "followSteps gw ?steps ?s1 = (False, s2)" by simp
    from followSteps_failure [OF f'] obtain evs k e where
      e: "requests s2 = requests ?s1 @ evs" "k < length ?steps"
         "move_targets evs = take (Suc k) (map xy ?steps)" "length evs = Suc k"
         "\<forall>ev\<in>set evs. is_move ev" "failed (last evs)"
      by blast
    have ne: "evs \<noteq> []" using e(4) by auto
    have "last evs \<in> set evs" using ne by simp
    with e(6) have ex: "\<exists>ev\<in>set evs. failed ev" by blast
    show ?thesis
    proof (intro exI [of _ evs] conjI impI)
      show "requests (followShortestPath gw s) = requests s @ evs" using s' e(1) by simp
      show "\<forall>ev\<in>set evs. is_move ev" by (rule e(5))
      show "prefix (move_targets evs) (map xy ?steps)"
        using e(3) by (simp add: take_is_prefix)
    qed (use ex in blast)+
  qed
qed

theorem followShortestPath_walks_first_result_witness:
  "s_results (explored_store corridor)
     = [\<lparr>pc_path = [coord 0 0, coord 1 0, coord 2 0], pc_length = 3\<rparr>]
   \<and> (\<exists>evs. requests (followShortestPath (grid_gateway corridor) (explored_store corridor))
              = requests (explored_store corridor) @ evs
           \<and> (\<forall>ev\<in>set evs. is_move ev \<and> \<not> failed ev)
           \<and> move_targets evs = [(1, 0), (2, 0)]
           \<and> length evs = 2)
   \<and> last (s_log (followShortestPath (grid_gateway corridor) (explored_store corridor))) = PlayerArrived
   \<and> s_isFinish (followShortestPath (grid_gateway corridor) (explored_store corridor))"
proof -
  let ?p = "\<lparr>pc_path = [coord 0 0, coord 1 0, coord 2 0], pc_length = 3\<rparr>"
  let ?s = "explored_store corridor"
  let ?gw = "grid_gateway corridor"
  let ?evs = "[MoveCall ''move'' 1 0 (Inr \<lparr>position_x = 1, position_y = 0, dead = False,
                  win = False, url_move = ''move'', url_discover = ''discover''\<rparr>),
               MoveCall ''move'' 2 0 (Inr \<lparr>position_x = 2, position_y = 0, dead = False,
                  win = True, url_move = ''move'', url_discover = ''discover''\<rparr>)]"
  have h1: "s_results ?s = ?p # []" by code_simp
  have h2: "requests (followShortestPath ?gw ?s) = requests ?s @ ?evs" by code_simp
  from followShortestPath_walks_first_result [OF h1, of ?gw] obtain evs where
    e: "requests (followShortestPath ?gw ?s) = requests ?s @ evs"
       "\<forall>ev\<in>set evs. is_move ev"
       "(\<forall>ev\<in>set evs. \<not> failed ev) \<longrightarrow>
            move_targets evs = map xy (drop 1 (pc_path ?p))
          \<and> length evs = length (pc_path ?p) - 1
          \<and> last (s_log (followShortestPath ?gw ?s)) = PlayerArrived
          \<and> s_isFinish (followShortestPath ?gw ?s)"
    by blast
  have eq: "evs = ?evs" using e(1) h2 by simp
  have nf: "\<forall>ev\<in>set evs. \<not> failed ev" unfolding eq by simp
  from e(3) nf have c: "move_targets evs = map xy (drop 1 (pc_path ?p))"
    "length evs = length (pc_path ?p) - 1"
    "last (s_log (followShortestPath ?gw ?s)) = PlayerArrived"
    "s_isFinish (followShortestPath ?gw ?s)" by blast+
  have "\<exists>evs. requests (followShortestPath ?gw ?s) = requests ?s @ evs
           \<and> (\<forall>ev\<in>set evs. is_move ev \<and> \<not> failed ev)
           \<and> move_targets evs = [(1, 0), (2, 0)] \<and> length evs = 2"
    using e(1,2) nf c(1,2) by (intro exI [of _ evs]) (simp add: xy_def coord_def)
  with h1 c(3,4) show ?thesis by simp
qed

section \<open>The search only adds\<close>

lemma store_grows_refl [simp]: "store_grows s s"
  by (simp add: store_grows_def)

lemma store_grows_trans:
  assumes "store_grows s s1" and "store_grows s1 s2"
  shows "store_grows s s2"
proof -
  have "prefix (requests s) (requests s2)" "prefix (s_log s) (s_log s2)"
    using assms unfolding store_grows_def by (metis prefix_order.order_trans)+
  moreover have "fst ` set (s_map s) \<subseteq> fst ` set (s_map s2)"
    using assms unfolding store_grows_def by blast
  moreover have "length (s_map s) \<le> length (s_map s2)"
    using assms unfolding store_grows_def by linarith
  moreover have "s_results s2 = s_results s" "s_isFinish s2 = s_isFinish s"
    using assms unfolding store_grows_def by simp_all
  ultimately show ?thesis unfolding store_grows_def by simp
qed

lemma store_grows_addLog [simp]: "store_grows s (addLog e s)"
  by (simp add: store_grows_def)

lemma store_grows_addLog': "store_grows s s1 \<Longrightarrow> store_grows s (addLog e s1)"
  by (rule store_grows_trans [OF _ store_grows_addLog])

lemma store_grows_moveToCell: "store_grows s (snd (moveToCell gw pos s))"
  by (simp add: store_grows_def moveToCell_requests moveToCell_keeps moveToCell_log)

lemma discoverSurroundings_requests:
  "requests (snd (discoverSurroundings gw s)) =
     requests s @ [DiscoverCall (s_discoverUrl s)
                     (fst (gw_discover gw (mazeService s) (s_discoverUrl s)))]"
  by (simp add: discoverSurroundings_def discoverCells_def Let_def split: prod.splits sum.splits)

lemma discoverSurroundings_result:
  "fst (discoverSurroundings gw s) = fst (gw_discover gw (mazeService s) (s_discoverUrl s))"
  by (simp add: discoverSurroundings_def Let_def split: prod.splits sum.splits)

lemma discoverSurroundings_log:
  "s_log (snd (discoverSurroundings gw s)) =
     s_log s @ (case fst (discoverSurroundings gw s) of
                  Inl e \<Rightarrow> [DiscoverError e] | Inr cells \<Rightarrow> [])"
  by (simp add: discoverSurroundings_def discoverCells_def Let_def split: prod.splits sum.splits)

lemma discoverSurroundings_keeps:
  "s_results (snd (discoverSurroundings gw s)) = s_results s"
  "s_isFinish (snd (discoverSurroundings gw s)) = s_isFinish s"
  by (simp_all add: discoverSurroundings_def discoverCells_def Let_def split: prod.splits sum.splits)

lemma discoverSurroundings_map:
  "fst ` set (s_map s) \<subseteq> fst ` set (s_map (snd (discoverSurroundings gw s)))"
  "length (s_map s) \<le> length (s_map (snd (discoverSurroundings gw s)))"
  by (auto simp: discoverSurroundings_def discoverCells_map fold_update_keys fold_update_length
      Let_def split: prod.splits sum.splits)

lemma store_grows_discoverSurroundings: "store_grows s (snd (discoverSurroundings gw s))"
  by (simp add: store_grows_def discoverSurroundings_requests discoverSurroundings_keeps
      discoverSurroundings_log discoverSurroundings_map)

lemma store_grows_tryMoveToCell: "store_grows s (snd (tryMoveToCell gw cell s))"
proof -
  obtain r s1 where m: "moveToCell gw cell s = (r, s1)" by (cases "moveToCell gw cell s")
  have "store_grows s s1" using store_grows_moveToCell [of s gw cell] m by simp
  then show ?thesis using m
    by (cases r) (simp_all add: tryMoveToCell_def store_grows_addLog')
qed

lemma store_grows_returnToPrevious: "store_grows s (returnToPrevious gw cell s)"
proof -
  obtain r s1 where m: "moveToCell gw cell s = (r, s1)" by (cases "moveToCell gw cell s")
  have "store_grows s s1" using store_grows_moveToCell [of s gw cell] m by simp
  then show ?thesis using m
    by (cases r) (simp_all add: returnToPrevious_def store_grows_addLog')
qed

lemma store_grows_getDiscoverableNeighbors:
  "store_grows s (snd (getDiscoverableNeighbors gw s))"
proof -
  obtain r s1 where m: "discoverSurroundings gw s = (r, s1)"
    by (cases "discoverSurroundings gw s")
  have "store_grows s s1" using store_grows_discoverSurroundings [of s gw] m by simp
  then show ?thesis using m
    by (cases r) (simp_all add: getDiscoverableNeighbors_def)
qed

lemma dfs_grows_refl [simp]: "dfs_grows d d"
  by (simp add: dfs_grows_def)

lemma dfs_grows_trans: "dfs_grows d d1 \<Longrightarrow> dfs_grows d1 d2 \<Longrightarrow> dfs_grows d d2"
  unfolding dfs_grows_def by (meson order_trans prefix_order.order_trans store_grows_trans)

lemma dfs_growsI:
  "v \<subseteq> v' \<Longrightarrow> prefix a a' \<Longrightarrow> store_grows s s' \<Longrightarrow> dfs_grows (v, a, s) (v', a', s')"
  by (simp add: dfs_grows_def)

text \<open>The outcomes of one frame of \<open>exploreFromCell\<close>.\<close>

lemma exploreFromCell_Suc_cases:
  assumes "exploreFromCell (Suc n) gw path visited allPaths s = R"
  obtains
    (empty) "path = []" "R = Rejected ''TypeError''"
  | (seen) "path \<noteq> []" "coordKey (last path) \<in> visited" "R = Resolved (visited, allPaths, s)"
  | (move_failed) s1 where "path \<noteq> []" "coordKey (last path) \<notin> visited"
      "tryMoveToCell gw (last path) s = (False, s1)"
      "R = Resolved (insert (coordKey (last path)) visited, allPaths, s1)"
  | (discover_failed) s1 s3 where "path \<noteq> []" "coordKey (last path) \<notin> visited"
      "tryMoveToCell gw (last path) s = (True, s1)"
      "getDiscoverableNeighbors gw (logExplorationStep (last path) (length path) s1) = (None, s3)"
      "R = Resolved (insert (coordKey (last path)) visited, allPaths, s3)"
  | (neighbors) s1 s3 neighbors where "path \<noteq> []" "coordKey (last path) \<notin> visited"
      "tryMoveToCell gw (last path) s = (True, s1)"
      "getDiscoverableNeighbors gw (logExplorationStep (last path) (length path) s1)
         = (Some neighbors, s3)"
      "R = exploreNeighbors n gw (last path) neighbors path
             (insert (coordKey (last path)) visited) allPaths s3"
proof (cases "path = []")
  case True
  with assms empty show thesis by (simp add: getCurrentCellFromPath_def)
next
  case ne: False
  show thesis
  proof (cases "coordKey (last path) \<in> visited")
    case True
    with assms ne seen show thesis
      by (simp add: getCurrentCellFromPath_def isVisited_def)
  next
    case nv: False
    obtain ok s1 where t: "tryMoveToCell gw (last path) s = (ok, s1)"
      by (cases "tryMoveToCell gw (last path) s")
    show thesis
    proof (cases ok)
      case False
      with assms ne nv t move_failed show thesis
        by (simp add: getCurrentCellFromPath_def isVisited_def markVisited_def)
    next
      case True
      obtain r s3 where
        g: "getDiscoverableNeighbors gw (logExplorationStep (last path) (length path) s1) = (r, s3)"
        by (cases "getDiscoverableNeighbors gw (logExplorationStep (last path) (length path) s1)")
      show thesis
      proof (cases r)
        case None
        with assms ne nv t True g discover_failed show thesis
          by (simp add: getCurrentCellFromPath_def isVisited_def markVisited_def)
      next
        case (Some neighbors)
        with assms ne nv t True g neighbors show thesis
          by (simp add: getCurrentCellFromPath_def isVisited_def markVisited_def)
      qed
    qed
  qed
qed

lemma handleCellExploration_cases:
  assumes "handleCellExploration n gw current cell path visited allPaths s = R"
  obtains
    (skip) "\<not> canExploreCell cell (coordKey cell) visited" "R = Resolved (visited, allPaths, s)"
  | (goal) "canExploreCell cell (coordKey cell) visited" "isGoalCell cell"
      "R = Resolved (visited,
             allPaths @ [\<lparr>pc_path = buildNextPath path cell,
                          pc_length = length (buildNextPath path cell)\<rparr>],
             addLog (ExitFound (length (buildNextPath path cell))) s)"
  | (deeper) "canExploreCell cell (coordKey cell) visited" "\<not> isGoalCell cell"
      "R = (case exploreFromCell n gw (buildNextPath path cell) visited allPaths s of
              Resolved (visited1, allPaths1, s1) \<Rightarrow>
                Resolved (visited1, allPaths1, returnToPrevious gw current s1)
            | Rejected e \<Rightarrow> Rejected e
            | OutOfFuel \<Rightarrow> OutOfFuel)"
proof (cases "canExploreCell cell (coordKey cell) visited")
  case False
  with assms skip show thesis by simp
next
  case ce: True
  show thesis
  proof (cases "isGoalCell cell")
    case True
    with assms ce goal show thesis by (simp add: recordExitPath_def Let_def)
  next
    case False
    with assms ce deeper show thesis by (simp add: Let_def)
  qed
qed

lemma grows_handle:
  assumes IH: "\<And>path v a s r. exploreFromCell n gw path v a s = Resolved r \<Longrightarrow> dfs_grows (v, a, s) r"
    and h: "handleCellExploration n gw current cell path v a s = Resolved r"
  shows "dfs_grows (v, a, s) r"
  using h
proof (cases rule: handleCellExploration_cases)
  case skip
  then show ?thesis by simp
next
  case goal
  then show ?thesis by (auto intro!: dfs_growsI)
next
  case deeper
  then obtain v1 a1 s1 where
    e: "exploreFromCell n gw (buildNextPath path cell) v a s = Resolved (v1, a1, s1)"
    and r: "r = (v1, a1, returnToPrevious gw current s1)"
    by (auto split: outcome.splits)
  have "dfs_grows (v1, a1, s1) r"
    unfolding r by (intro dfs_growsI) (simp_all add: store_grows_returnToPrevious)
  with IH [OF e] show ?thesis by (rule dfs_grows_trans)
qed

lemma grows_neighbors:
  assumes IH: "\<And>path v a s r. exploreFromCell n gw path v a s = Resolved r \<Longrightarrow> dfs_grows (v, a, s) r"
  shows "exploreNeighbors n gw current cells path v a s = Resolved r \<Longrightarrow> dfs_grows (v, a, s) r"
proof (induction cells arbitrary: v a s)
  case Nil
  then show ?case by simp
next
  case (Cons cell rest)
  from Cons.prems obtain v1 a1 s1 where
    h: "handleCellExploration n gw current cell path v a s = Resolved (v1, a1, s1)"
    and e: "exploreNeighbors n gw current rest path v1 a1 s1 = Resolved r"
    by (auto split: outcome.splits)
  from grows_handle [OF IH h] Cons.IH [OF e] show ?case by (rule dfs_grows_trans)
qed

lemma grows_frame:
  "exploreFromCell n gw path v a s = Resolved r \<Longrightarrow> dfs_grows (v, a, s) r"
proof (induction n arbitrary: path v a s r)
  case 0
  then show ?case by simp
next
  case (Suc n)
  from Suc.prems show ?case
  proof (cases rule: exploreFromCell_Suc_cases)
    case empty
    then show ?thesis by simp
  next
    case seen
    then show ?thesis by simp
  next
    case (move_failed s1)
    have "store_grows s s1" using store_grows_tryMoveToCell [of s gw "last path"] move_failed(3) by simp
    with move_failed(4) show ?thesis by (auto intro!: dfs_growsI)
  next
    case (discover_failed s1 s3)
    have 1: "store_grows s s1"
      using store_grows_tryMoveToCell [of s gw "last path"] discover_failed(3) by simp
    have 2: "store_grows s1 (logExplorationStep (last path) (length path) s1)"
      by (simp add: logExplorationStep_def)
    have 3: "store_grows (logExplorationStep (last path) (length path) s1) s3"
      using store_grows_getDiscoverableNeighbors
        [of "logExplorationStep (last path) (length path) s1" gw] discover_failed(4) by simp
    have "store_grows s s3" using 1 2 3 by (blast intro: store_grows_trans)
    with discover_failed(5) show ?thesis by (auto intro!: dfs_growsI)
  next
    case (neighbors s1 s3 ns)
    have 1: "store_grows s s1"
      using store_grows_tryMoveToCell [of s gw "last path"] neighbors(3) by simp
    have 2: "store_grows s1 (logExplorationStep (last path) (length path) s1)"
      by (simp add: logExplorationStep_def)
    have 3: "store_grows (logExplorationStep (last path) (length path) s1) s3"
      using store_grows_getDiscoverableNeighbors
        [of "logExplorationStep (last path) (length path) s1" gw] neighbors(4) by simp
    have g: "store_grows s s3" using 1 2 3 by (blast intro: store_grows_trans)
    have e: "exploreNeighbors n gw (last path) ns path (insert (coordKey (last path)) v) a s3 = Resolved r"
      using neighbors(5) by simp
    have "dfs_grows (insert (coordKey (last path)) v, a, s3) r"
      by (rule grows_neighbors [OF Suc.IH e])
    moreover have "dfs_grows (v, a, s) (insert (coordKey (last path)) v, a, s3)"
      using g by (auto intro!: dfs_growsI)
    ultimately show ?thesis by (blast intro: dfs_grows_trans)
  qed
qed

section \<open>The search is never rejected\<close>

lemma buildNextPath_nonempty [simp]: "buildNextPath path cell \<noteq> []"
  by (simp add: buildNextPath_def)

lemma not_rejected_handle:
  assumes IH: "\<And>path v a s. path \<noteq> [] \<Longrightarrow> exploreFromCell n gw path v a s \<noteq> Rejected e"
  shows "handleCellExploration n gw current cell path v a s \<noteq> Rejected e"
proof
  assume "handleCellExploration n gw current cell path v a s = Rejected e"
  then show False
  proof (cases rule: handleCellExploration_cases)
    case deeper
    with IH [of "buildNextPath path cell" v a s] show False
      by (auto split: outcome.splits)
  qed simp_all
qed

lemma not_rejected_neighbors:
  assumes IH: "\<And>path v a s. path \<noteq> [] \<Longrightarrow> exploreFromCell n gw path v a s \<noteq> Rejected e"
  shows "exploreNeighbors n gw current cells path v a s \<noteq> Rejected e"
proof (induction cells arbitrary: v a s)
  case Nil
  then show ?case by simp
next
  case (Cons cell rest)
  show ?case
    using not_rejected_handle [OF IH, of current cell path v a s] Cons.IH
    by (auto split: outcome.splits)
qed

lemma not_rejected_frame:
  "path \<noteq> [] \<Longrightarrow> exploreFromCell n gw path v a s \<noteq> Rejected e"
proof (induction n arbitrary: path v a s)
  case 0
  then show ?case by simp
next
  case (Suc n)
  show ?case
  proof
    assume "exploreFromCell (Suc n) gw path v a s = Rejected e"
    then show False
    proof (cases rule: exploreFromCell_Suc_cases)
      case empty
      with Suc.prems show False by simp
    next
      case (neighbors s1 s3 ns)
      with not_rejected_neighbors [OF Suc.IH] show False by metis
    qed simp_all
  qed
qed

section \<open>Recorded paths are safe routes to an exit\<close>

lemma grows_handleCellExploration:
  "handleCellExploration n gw current cell path v a s = Resolved r \<Longrightarrow> dfs_grows (v, a, s) r"
  by (rule grows_handle) (rule grows_frame)

lemma grows_exploreNeighbors:
  "exploreNeighbors n gw current cells path v a s = Resolved r \<Longrightarrow> dfs_grows (v, a, s) r"
  by (rule grows_neighbors) (rule grows_frame)

lemma reported_append [simp]: "reported (xs @ ys) = reported xs \<union> reported ys"
  by (simp add: reported_def)

lemma reported_since_mono:
  assumes "store_grows s s'"
  shows "reported_since k s \<subseteq> reported_since k s'"
proof -
  from assms obtain evs where "requests s' = requests s @ evs"
    by (auto simp: store_grows_def prefix_def)
  then show ?thesis by (auto simp: reported_since_def)
qed

lemma store_grows_length: "store_grows s s' \<Longrightarrow> length (requests s) \<le> length (requests s')"
  by (auto simp: store_grows_def prefix_def)

lemma dfs_path_mono: "dfs_path R start path \<Longrightarrow> R \<subseteq> R' \<Longrightarrow> dfs_path R' start path"
  unfolding dfs_path_def by blast

lemma exit_path_mono: "exit_path R start p \<Longrightarrow> R \<subseteq> R' \<Longrightarrow> exit_path R' start p"
  unfolding exit_path_def by blast

lemma coordKey_coords_of [simp]: "coordKey (coords_of cell) = coordKey cell"
  by (simp add: coordKey_def coords_of_def)

lemma buildNextPath_coords_of: "buildNextPath path cell = path @ [coords_of cell]"
  by (simp add: buildNextPath_def coords_of_def)

lemma getDiscoverableNeighbors_reported:
  assumes "getDiscoverableNeighbors gw s = (Some ns, s')" and "k \<le> length (requests s)"
  shows "set ns \<subseteq> reported_since k s'"
proof -
  obtain r s1 where d: "discoverSurroundings gw s = (r, s1)"
    by (cases "discoverSurroundings gw s")
  with assms(1) have r: "r = Inr ns" and s1: "s1 = s'"
    by (auto simp: getDiscoverableNeighbors_def split: sum.splits)
  have "fst (gw_discover gw (mazeService s) (s_discoverUrl s)) = Inr ns"
    using discoverSurroundings_result [of gw s] d r by simp
  then have "requests s' = requests s @ [DiscoverCall (s_discoverUrl s) (Inr ns)]"
    using discoverSurroundings_requests [of gw s] d s1 by simp
  with assms(2) show ?thesis
    by (simp add: reported_since_def reported_def)
qed

lemma exit_path_record:
  assumes "dfs_path R start path" and "distinct (map coordKey path)"
    and "coordKey ` set path \<subseteq> v" and "cell \<in> R"
    and "canExploreCell cell (coordKey cell) v" and "isGoalCell cell"
  shows "exit_path R start \<lparr>pc_path = buildNextPath path cell,
                              pc_length = length (buildNextPath path cell)\<rparr>"
proof -
  from assms(1) obtain cs where cs: "path = start # map coords_of cs" "set cs \<subseteq> R"
    "\<forall>c\<in>set cs. cmove c \<and> cvalue c \<noteq> Trap \<and> cvalue c \<noteq> Stop"
    unfolding dfs_path_def by blast
  have nk: "coordKey cell \<notin> coordKey ` set path"
    using assms(3,5) by (auto simp: canExploreCell_def)
  have "distinct (map coordKey (path @ [coords_of cell]))"
    using assms(2) nk by simp
  then have d: "distinct (path @ [coords_of cell])" by (simp only: distinct_map)
  have "path @ [coords_of cell] = start # map coords_of cs @ [coords_of cell]"
    using cs(1) by simp
  moreover have "cmove cell" "cvalue cell = Stop"
    using assms(5,6) by (simp_all add: canExploreCell_def isGoalCell_def)
  ultimately show ?thesis
    unfolding exit_path_def using cs(2,3) assms(4) d
    by (simp add: buildNextPath_coords_of) blast
qed

lemma dfs_path_extend:
  assumes "dfs_path R start path" and "cell \<in> R"
    and "canExploreCell cell (coordKey cell) v" and "\<not> isGoalCell cell"
  shows "dfs_path R start (buildNextPath path cell)"
proof -
  from assms(1) obtain cs where cs: "path = start # map coords_of cs" "set cs \<subseteq> R"
    "\<forall>c\<in>set cs. cmove c \<and> cvalue c \<noteq> Trap \<and> cvalue c \<noteq> Stop"
    unfolding dfs_path_def by blast
  have "cmove cell" "cvalue cell \<noteq> Trap" "cvalue cell \<noteq> Stop"
    using assms(3,4) by (simp_all add: canExploreCell_def isGoalCell_def)
  then show ?thesis
    unfolding dfs_path_def buildNextPath_coords_of
    using cs assms(2) by (intro exI [of _ "cs @ [cell]"]) auto
qed

lemma exits_handle:
  assumes IH: "\<forall>path v a s v' a' s'.
      dfs_path (reported_since k s) start path \<longrightarrow> distinct (map coordKey path) \<longrightarrow>
      coordKey ` set (butlast path) \<subseteq> v \<longrightarrow> k \<le> length (requests s) \<longrightarrow>
      (\<forall>p\<in>set a. exit_path (reported_since k s) start p) \<longrightarrow>
      exploreFromCell n gw path v a s = Resolved (v', a', s') \<longrightarrow>
      (\<forall>p\<in>set a'. exit_path (reported_since k s') start p)"
    and path: "dfs_path (reported_since k s) start path" "distinct (map coordKey path)"
      "coordKey ` set path \<subseteq> v"
    and k: "k \<le> length (requests s)"
    and cell: "cell \<in> reported_since k s"
    and a: "\<forall>p\<in>set a. exit_path (reported_since k s) start p"
    and h: "handleCellExploration n gw current cell path v a s = Resolved (v', a', s')"
  shows "\<forall>p\<in>set a'. exit_path (reported_since k s') start p"
  using h
proof (cases rule: handleCellExploration_cases)
  case skip
  with a show ?thesis by simp
next
  case goal
  have "reported_since k s' = reported_since k s"
    using goal(3) by (simp add: reported_since_def)
  moreover have "exit_path (reported_since k s) start
      \<lparr>pc_path = buildNextPath path cell, pc_length = length (buildNextPath path cell)\<rparr>"
    by (rule exit_path_record [OF path cell goal(1,2)])
  ultimately show ?thesis using a goal(3) by auto
next
  case deeper
  then obtain s1 where
    e: "exploreFromCell n gw (buildNextPath path cell) v a s = Resolved (v', a', s1)"
    and s': "s' = returnToPrevious gw current s1"
    by (auto split: outcome.splits)
  have nk: "coordKey cell \<notin> coordKey ` set path"
    using path(3) deeper(1) by (auto simp: canExploreCell_def)
  have 1: "dfs_path (reported_since k s) start (buildNextPath path cell)"
    by (rule dfs_path_extend [OF path(1) cell deeper(1,2)])
  have 2: "distinct (map coordKey (buildNextPath path cell))"
    using path(2) nk by (simp add: buildNextPath_coords_of)
  have 3: "coordKey ` set (butlast (buildNextPath path cell)) \<subseteq> v"
    using path(3) by (simp add: buildNextPath_coords_of)
  have "\<forall>p\<in>set a'. exit_path (reported_since k s1) start p"
    using IH 1 2 3 k a e by blast
  moreover have "reported_since k s1 \<subseteq> reported_since k s'"
    unfolding s' by (rule reported_since_mono [OF store_grows_returnToPrevious])
  ultimately show ?thesis by (blast intro: exit_path_mono)
qed

lemma exits_neighbors:
  assumes IH: "\<forall>path v a s v' a' s'.
      dfs_path (reported_since k s) start path \<longrightarrow> distinct (map coordKey path) \<longrightarrow>
      coordKey ` set (butlast path) \<subseteq> v \<longrightarrow> k \<le> length (requests s) \<longrightarrow>
      (\<forall>p\<in>set a. exit_path (reported_since k s) start p) \<longrightarrow>
      exploreFromCell n gw path v a s = Resolved (v', a', s') \<longrightarrow>
      (\<forall>p\<in>set a'. exit_path (reported_since k s') start p)"
  shows "\<lbrakk>dfs_path (reported_since k s) start path; distinct (map coordKey path);
       coordKey ` set path \<subseteq> v; k \<le> length (requests s);
       set cells \<subseteq> reported_since k s;
       \<forall>p\<in>set a. exit_path (reported_since k s) start p;
       exploreNeighbors n gw current cells path v a s = Resolved (v', a', s')\<rbrakk>
      \<Longrightarrow> \<forall>p\<in>set a'. exit_path (reported_since k s') start p"
proof (induction cells arbitrary: v a s)
  case Nil
  then show ?case by simp
next
  case (Cons cell rest)
  from Cons.prems(7) obtain v1 a1 s1 where
    h: "handleCellExploration n gw current cell path v a s = Resolved (v1, a1, s1)"
    and e: "exploreNeighbors n gw current rest path v1 a1 s1 = Resolved (v', a', s')"
    by (auto split: outcome.splits)
  have g: "dfs_grows (v, a, s) (v1, a1, s1)" by (rule grows_handleCellExploration [OF h])
  then have sg: "store_grows s s1" and vv: "v \<subseteq> v1" by (simp_all add: dfs_grows_def)
  have m: "reported_since k s \<subseteq> reported_since k s1" by (rule reported_since_mono [OF sg])
  have c: "cell \<in> reported_since k s" using Cons.prems(5) by simp
  have a1: "\<forall>p\<in>set a1. exit_path (reported_since k s1) start p"
    by (rule exits_handle [OF IH Cons.prems(1,2,3,4) c Cons.prems(6) h])
  show ?case
  proof (rule Cons.IH [OF _ Cons.prems(2) _ _ _ a1 e])
    show "dfs_path (reported_since k s1) start path"
      by (rule dfs_path_mono [OF Cons.prems(1) m])
    show "coordKey ` set path \<subseteq> v1" using Cons.prems(3) vv by blast
    show "k \<le> length (requests s1)" using Cons.prems(4) store_grows_length [OF sg] by simp
    show "set rest \<subseteq> reported_since k s1" using Cons.prems(5) m by auto
  qed
qed

lemma exits_frame:
  "\<lbrakk>dfs_path (reported_since k s) start path; distinct (map coordKey path);
    coordKey ` set (butlast path) \<subseteq> v; k \<le> length (requests s);
    \<forall>p\<in>set a. exit_path (reported_since k s) start p;
    exploreFromCell n gw path v a s = Resolved (v', a', s')\<rbrakk>
   \<Longrightarrow> \<forall>p\<in>set a'. exit_path (reported_since k s') start p"
proof (induction n arbitrary: path v a s v' a' s')
  case 0
  then show ?case by simp
next
  case (Suc n)
  have sg: "store_grows s s'"
    using grows_frame [OF Suc.prems(6)] by (simp add: dfs_grows_def)
  have m: "reported_since k s \<subseteq> reported_since k s'" by (rule reported_since_mono [OF sg])
  have old: "\<forall>p\<in>set a. exit_path (reported_since k s') start p"
    using Suc.prems(5) m by (blast intro: exit_path_mono)
  from Suc.prems(6) show ?case
  proof (cases rule: exploreFromCell_Suc_cases)
    case empty
    then show ?thesis by simp
  next
    case seen
    with old show ?thesis by simp
  next
    case (move_failed s1)
    with old show ?thesis by simp
  next
    case (discover_failed s1 s3)
    with old show ?thesis by simp
  next
    case (neighbors s1 s3 ns)
    let ?s2 = "logExplorationStep (last path) (length path) s1"
    have 1: "store_grows s s1"
      using store_grows_tryMoveToCell [of s gw "last path"] neighbors(3) by simp
    have 2: "store_grows s1 ?s2" by (simp add: logExplorationStep_def)
    have 3: "store_grows ?s2 s3"
      using store_grows_getDiscoverableNeighbors [of ?s2 gw] neighbors(4) by simp
    have g2: "store_grows s ?s2" using 1 2 by (rule store_grows_trans)
    have g: "store_grows s s3" using g2 3 by (rule store_grows_trans)
    have m3: "reported_since k s \<subseteq> reported_since k s3" by (rule reported_since_mono [OF g])
    have k2: "k \<le> length (requests ?s2)"
      using Suc.prems(4) store_grows_length [OF g2] by simp
    have e: "exploreNeighbors n gw (last path) ns path (insert (coordKey (last path)) v) a s3
               = Resolved (v', a', s')"
      using neighbors(5) by simp
    have IH': "\<forall>path v a s v' a' s'.
      dfs_path (reported_since k s) start path \<longrightarrow> distinct (map coordKey path) \<longrightarrow>
      coordKey ` set (butlast path) \<subseteq> v \<longrightarrow> k \<le> length (requests s) \<longrightarrow>
      (\<forall>p\<in>set a. exit_path (reported_since k s) start p) \<longrightarrow>
      exploreFromCell n gw path v a s = Resolved (v', a', s') \<longrightarrow>
      (\<forall>p\<in>set a'. exit_path (reported_since k s') start p)"
      by (intro allI impI) (rule Suc.IH)
    have sp: "set path = insert (last path) (set (butlast path))"
      using neighbors(1) by (metis append_butlast_last_id insert_is_Un list.simps(15) set_append sup_commute
          empty_set)
    show ?thesis
    proof (rule exits_neighbors [OF IH' _ Suc.prems(2) _ _ _ _ e])
      show "dfs_path (reported_since k s3) start path"
        by (rule dfs_path_mono [OF Suc.prems(1) m3])
      show "coordKey ` set path \<subseteq> insert (coordKey (last path)) v"
        using Suc.prems(3) sp by auto
      show "k \<le> length (requests s3)" using Suc.prems(4) store_grows_length [OF g] by simp
      show "set ns \<subseteq> reported_since k s3"
        by (rule getDiscoverableNeighbors_reported [OF neighbors(4) k2])
      show "\<forall>p\<in>set a. exit_path (reported_since k s3) start p"
        using Suc.prems(5) m3 by (blast intro: exit_path_mono)
    qed
  qed
qed

section \<open>What \<open>explore\<close> publishes\<close>

lemma foldl_addLog_requests [simp]:
  "requests (foldl (\<lambda>st x. addLog (g x) st) s xs) = requests s"
  by (induction xs arbitrary: s) simp_all

lemma foldl_addLog_log [simp]:
  "s_log (foldl (\<lambda>st x. addLog (g x) st) s xs) = s_log s @ map g xs"
  by (induction xs arbitrary: s) simp_all

lemma logPaths_nonempty:
  assumes "allPaths \<noteq> []"
  shows "\<exists>s'. logPaths allPaths s = (Inr (sort_key pc_length allPaths), s')
           \<and> requests s' = requests s \<and> prefix (s_log s) (s_log s')"
proof -
  have "length (sort_key pc_length allPaths) = length allPaths" by simp
  with assms have "sort_key pc_length allPaths \<noteq> []" by (metis length_0_conv)
  then obtain shortest others where so: "sort_key pc_length allPaths = shortest # others"
    by (cases "sort_key pc_length allPaths") auto
  show ?thesis
    unfolding logPaths_def Let_def so case_prod_unfold
    by (simp add: prefix_def)
qed

lemma paths_found_Some:
  "paths_found n gw s = Some allPaths \<longleftrightarrow>
     (\<exists>v s1. exploreFromCell n gw [s_position s] {} [] s = Resolved (v, allPaths, s1))"
  by (auto simp: paths_found_def startExploration_def split: outcome.splits)

lemma explore_found_nothing:
  assumes "exploreFromCell n gw [s_position s] {} [] s = Resolved (v, [], s1)"
  shows "explore n gw s = Resolved (addLog NoPathFound s1)"
  using assms by (simp add: explore_def startExploration_def)

lemma explore_found_paths:
  assumes "exploreFromCell n gw [s_position s] {} [] s = Resolved (v, allPaths, s1)"
    and "allPaths \<noteq> []"
  shows "\<exists>s'. explore n gw s = Resolved s' \<and> s_results s' = sort_key pc_length allPaths
           \<and> requests s' = requests s1 \<and> prefix (s_log s1) (s_log s')"
proof -
  from logPaths_nonempty [OF assms(2), of "s1\<lparr>s_results := allPaths\<rparr>"]
  obtain s3 where l: "logPaths allPaths (s1\<lparr>s_results := allPaths\<rparr>)
                        = (Inr (sort_key pc_length allPaths), s3)"
    and r: "requests s3 = requests s1" and p: "prefix (s_log s1) (s_log s3)"
    by auto
  have "explore n gw s = Resolved (s3\<lparr>s_results := sort_key pc_length allPaths\<rparr>)"
    using assms l by (simp add: explore_def startExploration_def Let_def)
  with r p show ?thesis by simp
qed

lemma explore_not_rejected: "explore n gw s \<noteq> Rejected e"
proof (cases "exploreFromCell n gw [s_position s] {} [] s")
  case OutOfFuel
  then show ?thesis by (simp add: explore_def startExploration_def)
next
  case (Rejected e')
  with not_rejected_frame [of "[s_position s]" n gw "{}" "[]" s e'] show ?thesis by simp
next
  case (Resolved r)
  obtain v a s1 where r: "r = (v, a, s1)" by (cases r)
  show ?thesis
  proof (cases "a = []")
    case True
    with Resolved r explore_found_nothing [of n gw s v s1] show ?thesis by simp
  next
    case False
    with Resolved r explore_found_paths [of n gw s v a s1] show ?thesis by auto
  qed
qed

lemma explore_exit_paths:
  assumes "exploreFromCell n gw [s_position s] {} [] s = Resolved (v, allPaths, s1)"
  shows "\<forall>p\<in>set allPaths. exit_path (reported_since (length (requests s)) s1) (s_position s) p"
proof (rule exits_frame [OF _ _ _ _ _ assms])
  show "dfs_path (reported_since (length (requests s)) s) (s_position s) [s_position s]"
    unfolding dfs_path_def by (intro exI [of _ "[]"]) simp
qed simp_all

section \<open>The bound on the depth of the search\<close>

text \<open>A larger bound on the depth does not change what the search returns.\<close>

lemma fuel_handle:
  assumes IH: "\<forall>path v a s r. exploreFromCell n gw path v a s = Resolved r \<longrightarrow>
                 exploreFromCell (Suc n) gw path v a s = Resolved r"
    and h: "handleCellExploration n gw current cell path v a s = Resolved r"
  shows "handleCellExploration (Suc n) gw current cell path v a s = Resolved r"
  using h
proof (cases rule: handleCellExploration_cases)
  case skip
  then show ?thesis by (simp del: exploreFromCell.simps)
next
  case goal
  then show ?thesis by (simp add: Let_def recordExitPath_def del: exploreFromCell.simps)
next
  case deeper
  then obtain v1 a1 s1 where
    e: "exploreFromCell n gw (buildNextPath path cell) v a s = Resolved (v1, a1, s1)"
    and r: "r = (v1, a1, returnToPrevious gw current s1)"
    by (auto split: outcome.splits)
  from IH e have "exploreFromCell (Suc n) gw (buildNextPath path cell) v a s = Resolved (v1, a1, s1)"
    by blast
  with deeper(1,2) r show ?thesis by (simp add: Let_def del: exploreFromCell.simps)
qed

lemma fuel_neighbors:
  assumes IH: "\<forall>path v a s r. exploreFromCell n gw path v a s = Resolved r \<longrightarrow>
                 exploreFromCell (Suc n) gw path v a s = Resolved r"
  shows "exploreNeighbors n gw current cells path v a s = Resolved r \<Longrightarrow>
         exploreNeighbors (Suc n) gw current cells path v a s = Resolved r"
proof (induction cells arbitrary: v a s)
  case Nil
  then show ?case by simp
next
  case (Cons cell rest)
  from Cons.prems obtain v1 a1 s1 where
    h: "handleCellExploration n gw current cell path v a s = Resolved (v1, a1, s1)"
    and e: "exploreNeighbors n gw current rest path v1 a1 s1 = Resolved r"
    by (auto split: outcome.splits)
  from fuel_handle [OF IH h] Cons.IH [OF e] show ?case
    by (simp del: handleCellExploration.simps)
qed

lemma fuel_frame:
  "exploreFromCell n gw path v a s = Resolved r \<Longrightarrow>
   exploreFromCell (Suc n) gw path v a s = Resolved r"
proof (induction n arbitrary: path v a s r)
  case 0
  then show ?case by simp
next
  case (Suc n)
  have IH: "\<forall>path v a s r. exploreFromCell n gw path v a s = Resolved r \<longrightarrow>
              exploreFromCell (Suc n) gw path v a s = Resolved r"
    by (intro allI impI) (rule Suc.IH)
  from Suc.prems show ?case
  proof (cases rule: exploreFromCell_Suc_cases)
    case empty
    then show ?thesis by simp
  next
    case seen
    then show ?thesis
      by (simp add: getCurrentCellFromPath_def isVisited_def)
  next
    case (move_failed s1)
    then show ?thesis
      by (simp add: getCurrentCellFromPath_def isVisited_def markVisited_def)
  next
    case (discover_failed s1 s3)
    then show ?thesis
      by (simp add: getCurrentCellFromPath_def isVisited_def markVisited_def)
  next
    case (neighbors s1 s3 ns)
    have "exploreNeighbors n gw (last path) ns path (insert (coordKey (last path)) v) a s3
            = Resolved r"
      using neighbors(5) by simp
    from fuel_neighbors [OF IH this] neighbors(1-4) show ?thesis
      by (simp add: getCurrentCellFromPath_def isVisited_def markVisited_def
            del: exploreNeighbors.simps)
  qed
qed

lemma fuel_frame_add:
  "exploreFromCell n gw path v a s = Resolved r \<Longrightarrow>
   exploreFromCell (n + k) gw path v a s = Resolved r"
proof (induction k)
  case 0
  then show ?case by simp
next
  case (Suc k)
  from fuel_frame [OF Suc.IH [OF Suc.prems]] show ?case by simp
qed

lemma explore_unfold:
  "explore n gw s =
     (case exploreFromCell n gw [s_position s] {} [] s of
        Resolved (v, allPaths, s1) \<Rightarrow>
          if allPaths = [] then Resolved (addLog NoPathFound s1)
          else (case logPaths allPaths (s1\<lparr>s_results := allPaths\<rparr>) of
                  (Inr allPaths1, s3) \<Rightarrow> Resolved (s3\<lparr>s_results := allPaths1\<rparr>)
                | (Inl e, s3) \<Rightarrow> Rejected e)
      | Rejected e \<Rightarrow> Rejected e
      | OutOfFuel \<Rightarrow> OutOfFuel)"
  by (simp add: explore_def startExploration_def Let_def split: outcome.splits)

lemma explore_fuel_irrelevant:
  assumes "explore n gw s = Resolved s'"
  shows "explore (n + k) gw s = Resolved s'"
proof -
  from assms obtain v a s1 where
    e: "exploreFromCell n gw [s_position s] {} [] s = Resolved (v, a, s1)"
    by (auto simp: explore_unfold split: outcome.splits)
  from fuel_frame_add [OF e, of k] e assms show ?thesis
    by (simp add: explore_unfold)
qed

text \<open>On a finite maze a bound above the number of its keys is enough.\<close>

lemma getDiscoverableNeighbors_within:
  assumes "reports_within gw K" and "getDiscoverableNeighbors gw s = (Some ns, s')"
  shows "coordKey ` set ns \<subseteq> K"
proof -
  obtain r w where g: "gw_discover gw (mazeService s) (s_discoverUrl s) = (r, w)"
    by (cases "gw_discover gw (mazeService s) (s_discoverUrl s)")
  with assms(2) have "r = Inr ns"
    by (cases r) (simp_all add: getDiscoverableNeighbors_def discoverSurroundings_def)
  with g assms(1) show ?thesis unfolding reports_within_def by blast
qed

lemma enough_handle:
  assumes IH: "\<forall>path v a s. path \<noteq> [] \<longrightarrow> coordKey (last path) \<in> U \<longrightarrow> card (U - v) < n \<longrightarrow>
                 exploreFromCell n gw path v a s \<noteq> OutOfFuel"
    and c: "coordKey cell \<in> U" and k: "card (U - v) < n"
  shows "handleCellExploration n gw current cell path v a s \<noteq> OutOfFuel"
proof
  assume "handleCellExploration n gw current cell path v a s = OutOfFuel"
  then show False
  proof (cases rule: handleCellExploration_cases)
    case deeper
    have "exploreFromCell n gw (buildNextPath path cell) v a s \<noteq> OutOfFuel"
      using IH c k by (simp add: buildNextPath_coords_of)
    with deeper(3) show False by (auto split: outcome.splits)
  qed simp_all
qed

lemma enough_neighbors:
  assumes IH: "\<forall>path v a s. path \<noteq> [] \<longrightarrow> coordKey (last path) \<in> U \<longrightarrow> card (U - v) < n \<longrightarrow>
                 exploreFromCell n gw path v a s \<noteq> OutOfFuel"
    and fin: "finite U"
  shows "coordKey ` set cells \<subseteq> U \<Longrightarrow> card (U - v) < n \<Longrightarrow>
         exploreNeighbors n gw current cells path v a s \<noteq> OutOfFuel"
proof (induction cells arbitrary: v a s)
  case Nil
  then show ?case by simp
next
  case (Cons cell rest)
  have c: "coordKey cell \<in> U" using Cons.prems(1) by simp
  have h: "handleCellExploration n gw current cell path v a s \<noteq> OutOfFuel"
    by (rule enough_handle [OF IH c Cons.prems(2)])
  show ?case
  proof (cases "handleCellExploration n gw current cell path v a s")
    case OutOfFuel
    with h show ?thesis by simp
  next
    case (Rejected e)
    then show ?thesis by (simp del: handleCellExploration.simps)
  next
    case (Resolved r)
    obtain v1 a1 s1 where r: "r = (v1, a1, s1)" by (cases r)
    have "v \<subseteq> v1"
      using grows_handleCellExploration [OF Resolved] r by (simp add: dfs_grows_def)
    then have "card (U - v1) \<le> card (U - v)"
      using fin by (intro card_mono) auto
    with Cons.prems(2) have k1: "card (U - v1) < n" by simp
    have "exploreNeighbors n gw current rest path v1 a1 s1 \<noteq> OutOfFuel"
      using Cons.prems(1) k1 by (intro Cons.IH) simp_all
    with Resolved r show ?thesis by (simp del: handleCellExploration.simps)
  qed
qed

lemma enough_frame:
  assumes fin: "finite U" and K: "reports_within gw K" and KU: "K \<subseteq> U"
  shows "path \<noteq> [] \<Longrightarrow> coordKey (last path) \<in> U \<Longrightarrow> card (U - v) < n \<Longrightarrow>
         exploreFromCell n gw path v a s \<noteq> OutOfFuel"
proof (induction n arbitrary: path v a s)
  case 0
  then show ?case by simp
next
  case (Suc n)
  have IH: "\<forall>path v a s. path \<noteq> [] \<longrightarrow> coordKey (last path) \<in> U \<longrightarrow> card (U - v) < n \<longrightarrow>
              exploreFromCell n gw path v a s \<noteq> OutOfFuel"
    by (intro allI impI) (rule Suc.IH)
  show ?case
  proof
    assume "exploreFromCell (Suc n) gw path v a s = OutOfFuel"
    then show False
    proof (cases rule: exploreFromCell_Suc_cases)
      case (neighbors s1 s3 ns)
      let ?k = "coordKey (last path)"
      have in_diff: "?k \<in> U - v" using Suc.prems(2) neighbors(2) by simp
      have "U - insert ?k v = (U - v) - {?k}" by auto
      then have "card (U - insert ?k v) = card (U - v) - 1"
        using in_diff by (simp add: card_Diff_singleton)
      moreover have "0 < card (U - v)"
        using in_diff fin by (metis card_gt_0_iff empty_iff finite_Diff)
      ultimately have k1: "card (U - insert ?k v) < n" using Suc.prems(3) by linarith
      have "coordKey ` set ns \<subseteq> U"
        using getDiscoverableNeighbors_within [OF K neighbors(4)] KU by blast
      from enough_neighbors [OF IH fin this k1] neighbors(5) show False by metis
    qed simp_all
  qed
qed

lemma explore_resolves_on_finite_maze:
  assumes "finite K" and "reports_within gw K" and "card K + 1 < n"
  shows "\<exists>s'. explore n gw s = Resolved s'"
proof -
  let ?U = "insert (coordKey (s_position s)) K"
  have "card (?U - {}) \<le> card K + 1"
    using assms(1) by (simp add: card_insert_if)
  with assms(3) have k: "card (?U - {}) < n" by linarith
  have "exploreFromCell n gw [s_position s] {} [] s \<noteq> OutOfFuel"
    using assms(1) assms(2) k by (intro enough_frame [of ?U gw K]) auto
  moreover have "\<And>e. exploreFromCell n gw [s_position s] {} [] s \<noteq> Rejected e"
    by (rule not_rejected_frame) simp
  ultimately obtain r where "exploreFromCell n gw [s_position s] {} [] s = Resolved r"
    by (cases "exploreFromCell n gw [s_position s] {} [] s") auto
  moreover obtain v a s1 where "r = (v, a, s1)" by (cases r)
  ultimately have e: "exploreFromCell n gw [s_position s] {} [] s = Resolved (v, a, s1)" by simp
  show ?thesis
  proof (cases "a = []")
    case True
    with e explore_found_nothing [of n gw s v s1] show ?thesis by simp
  next
    case False
    from explore_found_paths [OF e False] show ?thesis by blast
  qed
qed

lemma grid_gateway_reports_within:
  "reports_within (grid_gateway mz) (coordKey ` set (maze_cells mz))"
  by (auto simp: reports_within_def grid_gateway_def grid_discover_def split: if_splits)

lemma explore_resolves_on_grid:
  assumes "length (maze_cells mz) + 1 < n"
  shows "\<exists>s'. explore n (grid_gateway mz) s = Resolved s'"
proof (rule explore_resolves_on_finite_maze [OF _ grid_gateway_reports_within])
  have "card (coordKey ` set (maze_cells mz)) \<le> length (maze_cells mz)"
    by (metis card_image_le card_length le_trans List.finite_set)
  with assms show "card (coordKey ` set (maze_cells mz)) + 1 < n" by linarith
qed simp

section \<open>The stepper never steps\<close>

lemma exploreNext_busy: "isExploringNow s \<Longrightarrow> exploreNext gw s = s"
  by (simp add: exploreNext_def)

lemma constructor_effect_idle: "constructor_effect gw s = s"
  by (simp add: constructor_effect_def exploreNext_busy Let_def)

text \<open>
  Claim C8. A game has just been started on the corridor: the session is armed, a
  discover endpoint is known, no step is in flight, the agent is neither dead nor has it
  won, and the Gateway would report the cell (1, 0), which may be entered, is no trap
  and is not visited. The tick of the stepper issues no call at all and leaves the
  position and the log as they were: the effect sets the in-flight flag before it calls
  \<open>exploreNext\<close>, and \<open>exploreNext\<close> returns at once when that flag is set.
\<close>

theorem stepper_tick_issues_no_call:
  "s_isExploring started_store \<and> s_discoverUrl started_store = ''discover''
   \<and> isExploringNow started_store = False \<and> s_isDead started_store = False
   \<and> s_isWin started_store = False
   \<and> fst (gw_discover (grid_gateway corridor) (mazeService started_store)
             (s_discoverUrl started_store)) = Inr [mk_cell 1 0 True Path]
   \<and> chooseNextMove [mk_cell 1 0 True Path] started_store = Some (mk_cell 1 0 True Path)
   \<and> requests (constructor_effect (grid_gateway corridor) started_store) = []
   \<and> s_position (constructor_effect (grid_gateway corridor) started_store) = coord 0 0
   \<and> s_log (constructor_effect (grid_gateway corridor) started_store) = []"
  unfolding constructor_effect_idle by code_simp

section \<open>Sorted results\<close>

text \<open>
  Claim C4. When the search of \<open>explore\<close> returned at least one path, \<open>explore\<close>
  resolves and \<open>_results\<close> then holds the paths found, stably sorted by their \<open>length\<close>
  field: the same paths, each neighbouring pair in ascending order, and the first one of
  minimal length among them, both by the field and by the number of its coordinates.
\<close>

theorem explore_publishes_sorted_paths:
  assumes "paths_found n gw s = Some allPaths" and "allPaths \<noteq> []"
  shows "\<exists>s'. explore n gw s = Resolved s'
     \<and> s_results s' = sort_key pc_length allPaths
     \<and> set (s_results s') = set allPaths \<and> length (s_results s') = length allPaths
     \<and> (\<forall>i. Suc i < length (s_results s') \<longrightarrow>
            pc_length (s_results s' ! i) \<le> pc_length (s_results s' ! Suc i))
     \<and> (\<forall>p\<in>set (s_results s').
            pc_length (s_results s' ! 0) \<le> pc_length p
          \<and> length (pc_path (s_results s' ! 0)) \<le> length (pc_path p))"
proof -
  from assms(1) obtain v s1 where
    e: "exploreFromCell n gw [s_position s] {} [] s = Resolved (v, allPaths, s1)"
    by (auto simp: paths_found_Some)
  from explore_found_paths [OF e assms(2)] obtain s' where
    s': "explore n gw s = Resolved s'" "s_results s' = sort_key pc_length allPaths"
    by blast
  let ?rs = "sort_key pc_length allPaths"
  have srt: "sorted (map pc_length ?rs)" by (rule sorted_sort_key)
  have len: "\<forall>p\<in>set allPaths. pc_length p = length (pc_path p)"
    using explore_exit_paths [OF e] by (simp add: exit_path_def)
  have ne: "?rs \<noteq> []" using assms(2) by (metis length_0_conv length_sort)
  have adj: "pc_length (?rs ! i) \<le> pc_length (?rs ! Suc i)" if "Suc i < length ?rs" for i
  proof -
    have "map pc_length ?rs ! i \<le> map pc_length ?rs ! Suc i"
      using srt that by (intro sorted_nth_mono) simp_all
    with that show ?thesis by simp
  qed
  have least: "pc_length (?rs ! 0) \<le> pc_length p" if "p \<in> set ?rs" for p
  proof -
    from that obtain j where j: "j < length ?rs" "?rs ! j = p"
      by (metis in_set_conv_nth)
    have "map pc_length ?rs ! 0 \<le> map pc_length ?rs ! j"
      using srt j(1) by (intro sorted_nth_mono) simp_all
    moreover have "0 < length ?rs" using assms(2) by simp
    ultimately show ?thesis using j by (simp add: nth_map)
  qed
  have hd_in: "?rs ! 0 \<in> set allPaths"
    using ne by (metis length_greater_0_conv nth_mem set_sort)
  have least': "length (pc_path (?rs ! 0)) \<le> length (pc_path p)" if "p \<in> set ?rs" for p
    using least [OF that] len hd_in that by simp
  show ?thesis
  proof (intro exI [of _ s'] conjI allI impI ballI)
    show "explore n gw s = Resolved s'" by (rule s'(1))
    show "s_results s' = ?rs" by (rule s'(2))
    show "set (s_results s') = set allPaths" using s'(2) by simp
    show "length (s_results s') = length allPaths" using s'(2) by simp
  next
    fix i assume "Suc i < length (s_results s')"
    then show "pc_length (s_results s' ! i) \<le> pc_length (s_results s' ! Suc i)"
      using adj s'(2) by simp
  next
    fix p assume "p \<in> set (s_results s')"
    then show "pc_length (s_results s' ! 0) \<le> pc_length p"
      using least s'(2) by simp
  next
    fix p assume "p \<in> set (s_results s')"
    then show "length (pc_path (s_results s' ! 0)) \<le> length (pc_path p)"
      using least' s'(2) by simp
  qed
qed

theorem explore_publishes_sorted_paths_witness:
  "paths_found 10 (grid_gateway two_exits) started_store
     = Some [\<lparr>pc_path = [coord 0 0, coord 1 0, coord 2 0], pc_length = 3\<rparr>,
             \<lparr>pc_path = [coord 0 0, coord 0 1], pc_length = 2\<rparr>]
   \<and> (\<exists>s'. explore 10 (grid_gateway two_exits) started_store = Resolved s'
          \<and> s_results s' = [\<lparr>pc_path = [coord 0 0, coord 0 1], pc_length = 2\<rparr>,
                             \<lparr>pc_path = [coord 0 0, coord 1 0, coord 2 0], pc_length = 3\<rparr>]
          \<and> pc_length (s_results s' ! 0) \<le> pc_length (s_results s' ! Suc 0))"
proof -
  let ?p3 = "\<lparr>pc_path = [coord 0 0, coord 1 0, coord 2 0], pc_length = 3\<rparr>"
  let ?p2 = "\<lparr>pc_path = [coord 0 0, coord 0 1], pc_length = 2\<rparr>"
  have h1: "paths_found 10 (grid_gateway two_exits) started_store = Some [?p3, ?p2]"
    by code_simp
  have h2: "[?p3, ?p2] \<noteq> []" by simp
  have srt: "sort_key pc_length [?p3, ?p2] = [?p2, ?p3]" by simp
  from explore_publishes_sorted_paths [OF h1 h2] obtain s' where
    s': "explore 10 (grid_gateway two_exits) started_store = Resolved s'"
        "s_results s' = sort_key pc_length [?p3, ?p2]"
        "\<forall>i. Suc i < length (s_results s') \<longrightarrow>
            pc_length (s_results s' ! i) \<le> pc_length (s_results s' ! Suc i)"
    by blast
  have r: "s_results s' = [?p2, ?p3]" using s'(2) srt by simp
  have "Suc 0 < length (s_results s')" using r by simp
  with s'(3) have "pc_length (s_results s' ! 0) \<le> pc_length (s_results s' ! Suc 0)" by blast
  with h1 s'(1) r show ?thesis by blast
qed

section \<open>Recorded paths\<close>







section \<open>The first call of a run\<close>

lemma tryMoveToCell_requests:
  "requests (snd (tryMoveToCell gw cell s)) =
     requests s @ [MoveCall (s_moveUrl s) (cx cell) (cy cell)
                     (fst (gw_move gw (mazeService s) (s_moveUrl s) (cx cell) (cy cell)))]"
proof -
  obtain r s1 where m: "moveToCell gw cell s = (r, s1)" by (cases "moveToCell gw cell s")
  have "requests s1 = requests s @ [MoveCall (s_moveUrl s) (cx cell) (cy cell)
                     (fst (gw_move gw (mazeService s) (s_moveUrl s) (cx cell) (cy cell)))]"
    using moveToCell_requests [of gw cell s] m by simp
  then show ?thesis using m by (cases r) (simp_all add: tryMoveToCell_def)
qed

lemma tryMoveToCell_rejected:
  assumes "gw_move gw (mazeService s) (s_moveUrl s) (cx cell) (cy cell) = (Inl e, w)"
  shows "tryMoveToCell gw cell s =
    (False, addLog (TryMoveError (cx cell) (cy cell) e)
              (addLog (MoveError (cx cell) (cy cell) e)
                 (s\<lparr>mazeService := w,
                    requests := requests s @ [MoveCall (s_moveUrl s) (cx cell) (cy cell) (Inl e)]\<rparr>)))"
  by (simp add: tryMoveToCell_def moveToCell_Inl [OF assms])

lemma frame_first_request:
  assumes "exploreFromCell n gw path v a s = Resolved (v', a', s')"
    and "path \<noteq> []" and "coordKey (last path) \<notin> v"
  shows "\<exists>rest. requests s' =
     requests s @ MoveCall (s_moveUrl s) (cx (last path)) (cy (last path))
        (fst (gw_move gw (mazeService s) (s_moveUrl s) (cx (last path)) (cy (last path)))) # rest"
proof (cases n)
  case 0
  with assms(1) show ?thesis by simp
next
  case (Suc m)
  let ?ev = "MoveCall (s_moveUrl s) (cx (last path)) (cy (last path))
        (fst (gw_move gw (mazeService s) (s_moveUrl s) (cx (last path)) (cy (last path))))"
  have after: "\<exists>rest. requests s' = requests s @ ?ev # rest"
    if t: "tryMoveToCell gw (last path) s = (ok, s1)" and g: "store_grows s1 s'" for ok s1
  proof -
    have "requests s1 = requests s @ [?ev]"
      using tryMoveToCell_requests [of gw "last path" s] t by simp
    moreover from g obtain rest where "requests s' = requests s1 @ rest"
      by (auto simp: store_grows_def prefix_def)
    ultimately show ?thesis by simp
  qed
  from assms(1) [unfolded Suc] show ?thesis
  proof (cases rule: exploreFromCell_Suc_cases)
    case empty
    with assms(2) show ?thesis by simp
  next
    case seen
    with assms(3) show ?thesis by simp
  next
    case (move_failed s1)
    then have "s' = s1" by simp
    with after [OF move_failed(3)] show ?thesis by simp
  next
    case (discover_failed s1 s3)
    let ?s2 = "logExplorationStep (last path) (length path) s1"
    have "store_grows s1 ?s2" by (simp add: logExplorationStep_def)
    moreover have "store_grows ?s2 s3"
      using store_grows_getDiscoverableNeighbors [of ?s2 gw] discover_failed(4) by simp
    ultimately have "store_grows s1 s3" by (rule store_grows_trans)
    moreover have "s' = s3" using discover_failed(5) by simp
    ultimately show ?thesis using after [OF discover_failed(3)] by simp
  next
    case (neighbors s1 s3 ns)
    let ?s2 = "logExplorationStep (last path) (length path) s1"
    have "store_grows s1 ?s2" by (simp add: logExplorationStep_def)
    moreover have "store_grows ?s2 s3"
      using store_grows_getDiscoverableNeighbors [of ?s2 gw] neighbors(4) by simp
    ultimately have 1: "store_grows s1 s3" by (rule store_grows_trans)
    have "exploreNeighbors m gw (last path) ns path (insert (coordKey (last path)) v) a s3
            = Resolved (v', a', s')"
      using neighbors(5) by simp
    from grows_exploreNeighbors [OF this] have "store_grows s3 s'"
      by (simp add: dfs_grows_def)
    with 1 have "store_grows s1 s'" by (rule store_grows_trans)
    with after [OF neighbors(3)] show ?thesis by simp
  qed
qed

lemma explore_requests:
  assumes "explore n gw s = Resolved s'"
  shows "\<exists>v a s1. exploreFromCell n gw [s_position s] {} [] s = Resolved (v, a, s1)
           \<and> requests s' = requests s1"
proof (cases "exploreFromCell n gw [s_position s] {} [] s")
  case OutOfFuel
  with assms show ?thesis by (simp add: explore_def startExploration_def)
next
  case (Rejected e)
  with assms show ?thesis by (simp add: explore_def startExploration_def)
next
  case (Resolved r)
  obtain v a s1 where r: "r = (v, a, s1)" by (cases r)
  show ?thesis
  proof (cases "a = []")
    case True
    with Resolved r assms explore_found_nothing [of n gw s v s1] show ?thesis by auto
  next
    case False
    with Resolved r assms explore_found_paths [of n gw s v a s1] show ?thesis by auto
  qed
qed

text \<open>
  Claim C10. Every run of \<open>explore\<close> that resolves has first asked the Gateway to move
  the agent onto its own position: that move is the first exchange of the run, before
  any discover call. When the Gateway rejects it, \<open>explore\<close> still resolves (with any
  positive bound on the depth): the search found no path, the rejected move is the only
  exchange, \<open>_results\<close> is left as it was (empty when it was empty), and the log gains the
  two entries for the failed move and the entry ``no path found''.
\<close>

theorem explore_moves_to_start_first:
  "(\<forall>s'. explore n gw s = Resolved s' \<longrightarrow>
      (\<exists>rest. requests s' =
         requests s @ MoveCall (s_moveUrl s) (cx (s_position s)) (cy (s_position s))
           (fst (gw_move gw (mazeService s) (s_moveUrl s) (cx (s_position s)) (cy (s_position s))))
         # rest))
   \<and> (\<forall>e w. gw_move gw (mazeService s) (s_moveUrl s) (cx (s_position s)) (cy (s_position s))
              = (Inl e, w) \<longrightarrow>
        (\<exists>s'. explore (Suc m) gw s = Resolved s'
           \<and> paths_found (Suc m) gw s = Some []
           \<and> requests s' =
               requests s @ [MoveCall (s_moveUrl s) (cx (s_position s)) (cy (s_position s)) (Inl e)]
           \<and> s_results s' = s_results s
           \<and> s_log s' = s_log s @ [MoveError (cx (s_position s)) (cy (s_position s)) e,
                                    TryMoveError (cx (s_position s)) (cy (s_position s)) e,
                                    NoPathFound]))"
proof (intro conjI allI impI)
  fix s'
  assume "explore n gw s = Resolved s'"
  from explore_requests [OF this] obtain v a s1 where
    e: "exploreFromCell n gw [s_position s] {} [] s = Resolved (v, a, s1)"
    and r: "requests s' = requests s1" by blast
  from frame_first_request [OF e] r
  show "\<exists>rest. requests s' =
         requests s @ MoveCall (s_moveUrl s) (cx (s_position s)) (cy (s_position s))
           (fst (gw_move gw (mazeService s) (s_moveUrl s) (cx (s_position s)) (cy (s_position s))))
         # rest"
    by simp
next
  fix e w
  assume g: "gw_move gw (mazeService s) (s_moveUrl s) (cx (s_position s)) (cy (s_position s))
              = (Inl e, w)"
  let ?x = "cx (s_position s)" and ?y = "cy (s_position s)"
  let ?s1 = "addLog (TryMoveError ?x ?y e) (addLog (MoveError ?x ?y e)
               (s\<lparr>mazeService := w,
                  requests := requests s @ [MoveCall (s_moveUrl s) ?x ?y (Inl e)]\<rparr>))"
  have t: "tryMoveToCell gw (s_position s) s = (False, ?s1)"
    by (rule tryMoveToCell_rejected [OF g])
  have f: "exploreFromCell (Suc m) gw [s_position s] {} [] s
             = Resolved ({coordKey (s_position s)}, [], ?s1)"
    by (simp add: getCurrentCellFromPath_def isVisited_def markVisited_def t)
  have x: "explore (Suc m) gw s = Resolved (addLog NoPathFound ?s1)"
    by (rule explore_found_nothing [OF f])
  have p: "paths_found (Suc m) gw s = Some []"
    using f by (simp add: paths_found_Some del: exploreFromCell.simps)
  show "\<exists>s'. explore (Suc m) gw s = Resolved s'
           \<and> paths_found (Suc m) gw s = Some []
           \<and> requests s' = requests s @ [MoveCall (s_moveUrl s) ?x ?y (Inl e)]
           \<and> s_results s' = s_results s
           \<and> s_log s' = s_log s @ [MoveError ?x ?y e, TryMoveError ?x ?y e, NoPathFound]"
    using x p by simp
qed

theorem explore_moves_to_start_first_witness:
  "explore 10 (grid_gateway corridor) started_store = Resolved (explored_store corridor)
   \<and> (\<exists>rest. requests (explored_store corridor)
          = requests started_store @ MoveCall ''move'' 0 0 (Inr start_response) # rest)
   \<and> gw_move (grid_gateway closed_entry) (mazeService started_store) (s_moveUrl started_store)
         (cx (s_position started_store)) (cy (s_position started_store))
       = (Inl ''timeout'', (0, 0))
   \<and> (\<exists>s'. explore (Suc 9) (grid_gateway closed_entry) started_store = Resolved s'
          \<and> requests s' = [MoveCall ''move'' 0 0 (Inl ''timeout'')]
          \<and> s_results s' = []
          \<and> s_log s' = [MoveError 0 0 ''timeout'', TryMoveError 0 0 ''timeout'', NoPathFound])"
proof -
  have h1: "explore 10 (grid_gateway corridor) started_store = Resolved (explored_store corridor)"
    by code_simp
  have h2: "gw_move (grid_gateway closed_entry) (mazeService started_store)
      (s_moveUrl started_store) (cx (s_position started_store)) (cy (s_position started_store))
      = (Inl ''timeout'', (0, 0))"
    by code_simp
  have f: "s_moveUrl started_store = ''move''" "cx (s_position started_store) = 0"
    "cy (s_position started_store) = 0" "requests started_store = []"
    "s_results started_store = []" "s_log started_store = []"
    by code_simp+
  have g: "fst (gw_move (grid_gateway corridor) (mazeService started_store) ''move'' 0 0)
      = Inr start_response"
    by code_simp
  note t1 = explore_moves_to_start_first [of 10 "grid_gateway corridor" started_store 9]
  note t2 = explore_moves_to_start_first [of 10 "grid_gateway closed_entry" started_store 9]
  from t1 h1 have a: "\<exists>rest. requests (explored_store corridor)
          = requests started_store @ MoveCall ''move'' 0 0 (Inr start_response) # rest"
    unfolding f(1,2,3) g by blast
  from t2 h2 have b: "\<exists>s'. explore (Suc 9) (grid_gateway closed_entry) started_store = Resolved s'
          \<and> requests s' = [MoveCall ''move'' 0 0 (Inl ''timeout'')]
          \<and> s_results s' = []
          \<and> s_log s' = [MoveError 0 0 ''timeout'', TryMoveError 0 0 ''timeout'', NoPathFound]"
    unfolding f by (simp only: append_Nil) blast
  from h1 a h2 b show ?thesis by blast
qed

section \<open>Failures of the Gateway during the search\<close>

lemma tryMoveToCell_accepted:
  assumes "gw_move gw (mazeService s) (s_moveUrl s) (cx cell) (cy cell) = (Inr result, w)"
  shows "tryMoveToCell gw cell s =
    (True, updateFromMove result
             (s\<lparr>mazeService := w,
                requests := requests s @ [MoveCall (s_moveUrl s) (cx cell) (cy cell) (Inr result)]\<rparr>))"
  by (simp add: tryMoveToCell_def moveToCell_Inr [OF assms])

lemma getDiscoverableNeighbors_rejected:
  assumes "fst (gw_discover gw (mazeService s) (s_discoverUrl s)) = Inl e"
  shows "\<exists>s'. getDiscoverableNeighbors gw s = (None, s') \<and> s_log s' = s_log s @ [DiscoverError e]"
  using assms
  by (cases "gw_discover gw (mazeService s) (s_discoverUrl s)")
     (simp add: getDiscoverableNeighbors_def discoverSurroundings_def)

lemma failing_frame:
  assumes f: "frame_call_fails gw (last path) s" and ne: "path \<noteq> []"
    and nv: "coordKey (last path) \<notin> v"
  shows "\<exists>s1. exploreFromCell (Suc n) gw path v a s
                 = Resolved (insert (coordKey (last path)) v, a, s1)
           \<and> (\<exists>entry\<in>set (drop (length (s_log s)) (s_log s1)). is_error_entry entry)"
proof -
  let ?x = "cx (last path)" and ?y = "cy (last path)"
  obtain r w where g: "gw_move gw (mazeService s) (s_moveUrl s) ?x ?y = (r, w)"
    by (cases "gw_move gw (mazeService s) (s_moveUrl s) ?x ?y")
  show ?thesis
  proof (cases r)
    case (Inl e)
    let ?s1 = "addLog (TryMoveError ?x ?y e) (addLog (MoveError ?x ?y e)
                 (s\<lparr>mazeService := w,
                    requests := requests s @ [MoveCall (s_moveUrl s) ?x ?y (Inl e)]\<rparr>))"
    have t: "tryMoveToCell gw (last path) s = (False, ?s1)"
      using g Inl by (intro tryMoveToCell_rejected) simp
    have "exploreFromCell (Suc n) gw path v a s = Resolved (insert (coordKey (last path)) v, a, ?s1)"
      using ne nv by (simp add: getCurrentCellFromPath_def isVisited_def markVisited_def t)
    moreover have "drop (length (s_log s)) (s_log ?s1) = [MoveError ?x ?y e, TryMoveError ?x ?y e]"
      by simp
    ultimately show ?thesis by (intro exI [of _ ?s1]) simp
  next
    case (Inr result)
    let ?s1 = "updateFromMove result (s\<lparr>mazeService := w,
                 requests := requests s @ [MoveCall (s_moveUrl s) ?x ?y (Inr result)]\<rparr>)"
    let ?s2 = "logExplorationStep (last path) (length path) ?s1"
    have t: "tryMoveToCell gw (last path) s = (True, ?s1)"
      using g Inr by (intro tryMoveToCell_accepted) simp
    from f g Inr have "isl (fst (gw_discover gw w (url_discover result)))"
      by (simp add: frame_call_fails_def)
    then obtain e where "fst (gw_discover gw w (url_discover result)) = Inl e"
      by (cases "fst (gw_discover gw w (url_discover result))") auto
    then have "fst (gw_discover gw (mazeService ?s2) (s_discoverUrl ?s2)) = Inl e"
      by (simp add: logExplorationStep_def)
    from getDiscoverableNeighbors_rejected [OF this] obtain s3 where
      d: "getDiscoverableNeighbors gw ?s2 = (None, s3)"
      and l: "s_log s3 = s_log ?s2 @ [DiscoverError e]" by blast
    have "exploreFromCell (Suc n) gw path v a s = Resolved (insert (coordKey (last path)) v, a, s3)"
      using ne nv by (simp add: getCurrentCellFromPath_def isVisited_def markVisited_def t d)
    moreover have "drop (length (s_log s)) (s_log s3)
                     = [ExplorationStep (length path) ?x ?y, DiscoverError e]"
      using l by (simp add: logExplorationStep_def)
    ultimately show ?thesis by (intro exI [of _ s3]) simp
  qed
qed

lemma failing_branch:
  assumes c: "canExploreCell cell (coordKey cell) v" and ng: "\<not> isGoalCell cell"
    and f: "frame_call_fails gw (coords_of cell) s"
  shows "\<exists>s1. handleCellExploration (Suc n) gw current cell path v a s
                 = Resolved (insert (coordKey cell) v, a, s1)
           \<and> (\<exists>entry\<in>set (drop (length (s_log s)) (s_log s1)). is_error_entry entry)"
proof -
  let ?np = "buildNextPath path cell"
  have lp: "last ?np = coords_of cell" by (simp add: buildNextPath_coords_of)
  have nv: "coordKey (last ?np) \<notin> v" using c by (simp add: lp canExploreCell_def)
  from failing_frame [of gw ?np s v n a] f nv lp obtain s1 where
    e: "exploreFromCell (Suc n) gw ?np v a s = Resolved (insert (coordKey cell) v, a, s1)"
    and l: "\<exists>entry\<in>set (drop (length (s_log s)) (s_log s1)). is_error_entry entry"
    by auto
  have h: "handleCellExploration (Suc n) gw current cell path v a s
             = Resolved (insert (coordKey cell) v, a, returnToPrevious gw current s1)"
    using c ng e by (simp add: Let_def del: exploreFromCell.simps)
  have "prefix (s_log s1) (s_log (returnToPrevious gw current s1))"
    using store_grows_returnToPrevious [of s1 gw current] by (simp add: store_grows_def)
  then obtain more where m: "s_log (returnToPrevious gw current s1) = s_log s1 @ more"
    by (auto simp: prefix_def)
  have "prefix (s_log s) (s_log s1)"
    using grows_frame [OF e] by (simp add: dfs_grows_def store_grows_def)
  then obtain new where n: "s_log s1 = s_log s @ new" by (auto simp: prefix_def)
  from l n m have "\<exists>entry\<in>set (drop (length (s_log s)) (s_log (returnToPrevious gw current s1))).
                    is_error_entry entry"
    by auto
  with h show ?thesis by blast
qed

text \<open>
  Claim C3. \<open>explore\<close> is never rejected. When the frame of the search for a neighbour
  that is explored meets a failure of the Gateway (its move is rejected, or its discover
  call is), the frame returns normally with \<open>allPaths\<close> as it was and with an error entry
  added to the log, and the loop of the parent frame goes on with the remaining
  neighbours from there. No call of the search ever removes a path from \<open>allPaths\<close>: what
  a call is given is a prefix of what it returns. And the paths that the root call
  returns are the elements of \<open>_results\<close> when \<open>explore\<close> resolves with one path at least.
  Whatever the Gateway answers, \<open>explore\<close> does resolve when the maze is finite: a
  bound on the depth above the number of keys the Gateway can report, plus one for the
  start, suffices, and a larger bound gives the same store.
\<close>

theorem gateway_failure_abandons_only_its_branch:
  "explore m gw s0 \<noteq> Rejected e
   \<and> (canExploreCell cell (coordKey cell) visited \<and> \<not> isGoalCell cell
        \<and> frame_call_fails gw (coords_of cell) s \<longrightarrow>
       (\<exists>s1. handleCellExploration (Suc n) gw current cell path visited allPaths s
                = Resolved (insert (coordKey cell) visited, allPaths, s1)
            \<and> (\<exists>entry\<in>set (drop (length (s_log s)) (s_log s1)). is_error_entry entry)
            \<and> exploreNeighbors (Suc n) gw current (cell # rest) path visited allPaths s
                = exploreNeighbors (Suc n) gw current rest path
                    (insert (coordKey cell) visited) allPaths s1))
   \<and> (\<forall>r. exploreFromCell k gw path visited allPaths s = Resolved r \<longrightarrow>
          prefix allPaths (fst (snd r)))
   \<and> (\<forall>r. handleCellExploration k gw current cell path visited allPaths s = Resolved r \<longrightarrow>
          prefix allPaths (fst (snd r)))
   \<and> (\<forall>r. exploreNeighbors k gw current cells path visited allPaths s = Resolved r \<longrightarrow>
          prefix allPaths (fst (snd r)))
   \<and> (\<forall>found. paths_found m gw s0 = Some found \<longrightarrow>
          (\<exists>s'. explore m gw s0 = Resolved s'
              \<and> (found \<noteq> [] \<longrightarrow> set (s_results s') = set found)))
   \<and> (finite K \<and> reports_within gw K \<and> card K + 1 < m \<longrightarrow>
          (\<exists>s'. explore m gw s0 = Resolved s'))
   \<and> (\<forall>s'. explore m gw s0 = Resolved s' \<longrightarrow> explore (m + j) gw s0 = Resolved s')"
proof (intro conjI allI impI)
  show "explore m gw s0 \<noteq> Rejected e" by (rule explore_not_rejected)
next
  assume "finite K \<and> reports_within gw K \<and> card K + 1 < m"
  then show "\<exists>s'. explore m gw s0 = Resolved s'"
    by (intro explore_resolves_on_finite_maze [of K]) simp_all
next
  fix s' assume "explore m gw s0 = Resolved s'"
  then show "explore (m + j) gw s0 = Resolved s'" by (rule explore_fuel_irrelevant)
next
  assume a: "canExploreCell cell (coordKey cell) visited \<and> \<not> isGoalCell cell
        \<and> frame_call_fails gw (coords_of cell) s"
  from failing_branch [of cell visited gw s n current path allPaths] a obtain s1 where
    h: "handleCellExploration (Suc n) gw current cell path visited allPaths s
          = Resolved (insert (coordKey cell) visited, allPaths, s1)"
    and l: "\<exists>entry\<in>set (drop (length (s_log s)) (s_log s1)). is_error_entry entry"
    by blast
  have "exploreNeighbors (Suc n) gw current (cell # rest) path visited allPaths s
          = exploreNeighbors (Suc n) gw current rest path (insert (coordKey cell) visited) allPaths s1"
    by (simp add: h del: handleCellExploration.simps)
  with h l show "\<exists>s1. handleCellExploration (Suc n) gw current cell path visited allPaths s
                = Resolved (insert (coordKey cell) visited, allPaths, s1)
            \<and> (\<exists>entry\<in>set (drop (length (s_log s)) (s_log s1)). is_error_entry entry)
            \<and> exploreNeighbors (Suc n) gw current (cell # rest) path visited allPaths s
                = exploreNeighbors (Suc n) gw current rest path
                    (insert (coordKey cell) visited) allPaths s1"
    by blast
next
  fix r assume "exploreFromCell k gw path visited allPaths s = Resolved r"
  from grows_frame [OF this] show "prefix allPaths (fst (snd r))" by (simp add: dfs_grows_def)
next
  fix r assume "handleCellExploration k gw current cell path visited allPaths s = Resolved r"
  from grows_handleCellExploration [OF this] show "prefix allPaths (fst (snd r))"
    by (simp add: dfs_grows_def)
next
  fix r assume "exploreNeighbors k gw current cells path visited allPaths s = Resolved r"
  from grows_exploreNeighbors [OF this] show "prefix allPaths (fst (snd r))"
    by (simp add: dfs_grows_def)
next
  fix found assume "paths_found m gw s0 = Some found"
  then obtain v s1 where
    e: "exploreFromCell m gw [s_position s0] {} [] s0 = Resolved (v, found, s1)"
    by (auto simp: paths_found_Some)
  show "\<exists>s'. explore m gw s0 = Resolved s' \<and> (found \<noteq> [] \<longrightarrow> set (s_results s') = set found)"
  proof (cases "found = []")
    case True
    with e explore_found_nothing [of m gw s0 v s1] show ?thesis by simp
  next
    case False
    from explore_found_paths [OF e False] show ?thesis by auto
  qed
qed

theorem gateway_failure_abandons_only_its_branch_witness:
  "canExploreCell (mk_cell 2 0 True Path) (coordKey (mk_cell 2 0 True Path)) {''0,0'', ''1,0''}
   \<and> \<not> isGoalCell (mk_cell 2 0 True Path)
   \<and> frame_call_fails (grid_gateway fork_maze) (coords_of (mk_cell 2 0 True Path)) fork_branch_store
   \<and> (\<exists>s1. handleCellExploration (Suc 0) (grid_gateway fork_maze) (coord 1 0)
               (mk_cell 2 0 True Path) [coord 0 0, coord 1 0] {''0,0'', ''1,0''}
               [\<lparr>pc_path = [coord 0 0, coord 0 (- 1)], pc_length = 2\<rparr>] fork_branch_store
             = Resolved (insert (coordKey (mk_cell 2 0 True Path)) {''0,0'', ''1,0''},
                         [\<lparr>pc_path = [coord 0 0, coord 0 (- 1)], pc_length = 2\<rparr>], s1)
          \<and> (\<exists>entry\<in>set (drop (length (s_log fork_branch_store)) (s_log s1)).
                is_error_entry entry)
          \<and> exploreNeighbors (Suc 0) (grid_gateway fork_maze) (coord 1 0)
               [mk_cell 2 0 True Path, mk_cell 0 0 True Path] [coord 0 0, coord 1 0]
               {''0,0'', ''1,0''}
               [\<lparr>pc_path = [coord 0 0, coord 0 (- 1)], pc_length = 2\<rparr>] fork_branch_store
             = exploreNeighbors (Suc 0) (grid_gateway fork_maze) (coord 1 0)
               [mk_cell 0 0 True Path] [coord 0 0, coord 1 0]
               (insert (coordKey (mk_cell 2 0 True Path)) {''0,0'', ''1,0''})
               [\<lparr>pc_path = [coord 0 0, coord 0 (- 1)], pc_length = 2\<rparr>] s1)
   \<and> reports_within (grid_gateway fork_maze) (coordKey ` set (maze_cells fork_maze))
   \<and> card (coordKey ` set (maze_cells fork_maze)) + 1 < 10
   \<and> explore 10 (grid_gateway fork_maze) started_store = Resolved (explored_store fork_maze)
   \<and> explore (10 + 5) (grid_gateway fork_maze) started_store = Resolved (explored_store fork_maze)
   \<and> map pc_path (s_results (explored_store fork_maze))
       = [[coord 0 0, coord 0 (- 1)], [coord 0 0, coord 0 1, coord 0 2]]
   \<and> DiscoverError ''timeout'' \<in> set (s_log (explored_store fork_maze))"
proof -
  have w: "reports_within (grid_gateway fork_maze) (coordKey ` set (maze_cells fork_maze))"
    by (rule grid_gateway_reports_within)
  have c: "card (coordKey ` set (maze_cells fork_maze)) + 1 < 10"
    by code_simp
  have h: "canExploreCell (mk_cell 2 0 True Path) (coordKey (mk_cell 2 0 True Path)) {''0,0'', ''1,0''}
     \<and> \<not> isGoalCell (mk_cell 2 0 True Path)
     \<and> frame_call_fails (grid_gateway fork_maze) (coords_of (mk_cell 2 0 True Path)) fork_branch_store"
    by code_simp
  have x: "explore 10 (grid_gateway fork_maze) started_store = Resolved (explored_store fork_maze)"
    by code_simp
  have r: "map pc_path (s_results (explored_store fork_maze))
       = [[coord 0 0, coord 0 (- 1)], [coord 0 0, coord 0 1, coord 0 2]]"
    by code_simp
  have l: "DiscoverError ''timeout'' \<in> set (s_log (explored_store fork_maze))"
    by code_simp
  note t = gateway_failure_abandons_only_its_branch
    [where cell = "mk_cell 2 0 True Path" and visited = "{''0,0'', ''1,0''}"
       and gw = "grid_gateway fork_maze" and s = fork_branch_store and n = 0
       and current = "coord 1 0" and path = "[coord 0 0, coord 1 0]"
       and allPaths = "[\<lparr>pc_path = [coord 0 0, coord 0 (- 1)], pc_length = 2\<rparr>]"
       and rest = "[mk_cell 0 0 True Path]" and m = 10 and ?s0.0 = started_store and j = 5]
  from t h have "\<exists>s1. handleCellExploration (Suc 0) (grid_gateway fork_maze) (coord 1 0)
               (mk_cell 2 0 True Path) [coord 0 0, coord 1 0] {''0,0'', ''1,0''}
               [\<lparr>pc_path = [coord 0 0, coord 0 (- 1)], pc_length = 2\<rparr>] fork_branch_store
             = Resolved (insert (coordKey (mk_cell 2 0 True Path)) {''0,0'', ''1,0''},
                         [\<lparr>pc_path = [coord 0 0, coord 0 (- 1)], pc_length = 2\<rparr>], s1)
          \<and> (\<exists>entry\<in>set (drop (length (s_log fork_branch_store)) (s_log s1)).
                is_error_entry entry)
          \<and> exploreNeighbors (Suc 0) (grid_gateway fork_maze) (coord 1 0)
               [mk_cell 2 0 True Path, mk_cell 0 0 True Path] [coord 0 0, coord 1 0]
               {''0,0'', ''1,0''}
               [\<lparr>pc_path = [coord 0 0, coord 0 (- 1)], pc_length = 2\<rparr>] fork_branch_store
             = exploreNeighbors (Suc 0) (grid_gateway fork_maze) (coord 1 0)
               [mk_cell 0 0 True Path] [coord 0 0, coord 1 0]
               (insert (coordKey (mk_cell 2 0 True Path)) {''0,0'', ''1,0''})
               [\<lparr>pc_path = [coord 0 0, coord 0 (- 1)], pc_length = 2\<rparr>] s1"
    by blast
  moreover from t x
  have "explore (10 + 5) (grid_gateway fork_maze) started_store = Resolved (explored_store fork_maze)"
    by blast
  ultimately show ?thesis using h w c x r l by blast
qed

section \<open>Routes that the search does not record\<close>

text \<open>
  Claim C1. On the ring, the walk (0,0), (0,1), (0,2) starts at the start cell, ends on
  the exit, visits no coordinate twice and steps on no trap. \<open>explore\<close> completes and
  records one path only, the way round the ring through (1,0) and (1,1): once (0,1) has
  been visited on that way it is skipped as a neighbour of the start, so the shorter
  route to the same exit is not recorded.
\<close>

theorem ring_maze_short_route_not_recorded:
  "safe_walk ring_maze (coord 0 0) [coord 0 0, coord 0 1, coord 0 2]
   \<and> explore 10 (grid_gateway ring_maze) started_store = Resolved (explored_store ring_maze)
   \<and> map pc_path (s_results (explored_store ring_maze))
       = [[coord 0 0, coord 1 0, coord 1 1, coord 0 1, coord 0 2]]"
  by code_simp

section \<open>The discovered map\<close>

lemma discoverCells_seq_keys:
  "fst ` set (s_map s) \<subseteq> fst ` set (s_map (foldl (\<lambda>st cells. discoverCells cells st) s batches))"
proof (induction batches arbitrary: s)
  case Nil
  then show ?case by simp
next
  case (Cons b bs)
  have "fst ` set (s_map s) \<subseteq> fst ` set (s_map (discoverCells b s))"
    by (simp add: discoverCells_map fold_update_keys)
  with Cons.IH [of "discoverCells b s"] show ?case by auto
qed

lemma discoverCells_seq_length:
  "length (s_map s) \<le> length (s_map (foldl (\<lambda>st cells. discoverCells cells st) s batches))"
proof (induction batches arbitrary: s)
  case Nil
  then show ?case by simp
next
  case (Cons b bs)
  have "length (s_map s) \<le> length (s_map (discoverCells b s))"
    by (simp add: discoverCells_map fold_update_length)
  with Cons.IH [of "discoverCells b s"] show ?case by (simp add: order_trans)
qed

lemma discoverCells_seq_lookup:
  "map_of (s_map s) k = Some c \<Longrightarrow>
   \<exists>c'. map_of (s_map (foldl (\<lambda>st cells. discoverCells cells st) s batches)) k = Some c'
      \<and> (c' = c \<or> (\<exists>b\<in>set batches. c' \<in> set b \<and> coordKey c' = k))"
proof (induction batches arbitrary: s c)
  case Nil
  then show ?case by simp
next
  case (Cons b bs)
  let ?s1 = "discoverCells b s"
  have l: "map_of (s_map ?s1) k
     = (case find (\<lambda>c. coordKey c = k) (rev b) of Some c \<Rightarrow> Some c | None \<Rightarrow> map_of (s_map s) k)"
    by (simp add: discoverCells_map fold_update_lookup)
  show ?case
  proof (cases "find (\<lambda>c. coordKey c = k) (rev b)")
    case None
    with l Cons.prems have "map_of (s_map ?s1) k = Some c" by simp
    from Cons.IH [OF this] show ?thesis by auto
  next
    case (Some d)
    then have d: "d \<in> set b" "coordKey d = k"
      using find_SomeD [of "\<lambda>c. coordKey c = k" "rev b" d] by simp_all
    from l Some have "map_of (s_map ?s1) k = Some d" by simp
    from Cons.IH [OF this] d show ?thesis by auto
  qed
qed

lemma foldl_addLog_map [simp]:
  "s_map (foldl (\<lambda>st x. addLog (g x) st) s xs) = s_map s"
  by (induction xs arbitrary: s) simp_all

lemma logPaths_map: "s_map (snd (logPaths allPaths s)) = s_map s"
  by (simp add: logPaths_def Let_def case_prod_unfold split: list.splits)

lemma explore_map_grows:
  assumes "explore n gw s = Resolved s'"
  shows "fst ` set (s_map s) \<subseteq> fst ` set (s_map s') \<and> length (s_map s) \<le> length (s_map s')"
proof -
  from assms obtain v a s1 where
    e: "exploreFromCell n gw [s_position s] {} [] s = Resolved (v, a, s1)"
    by (auto simp: explore_unfold split: outcome.splits)
  have g: "store_grows s s1" using grows_frame [OF e] by (simp add: dfs_grows_def)
  have "s_map s' = s_map s1"
  proof (cases "a = []")
    case True
    with e assms show ?thesis by (auto simp: explore_unfold)
  next
    case False
    obtain r s3 where l: "logPaths a (s1\<lparr>s_results := a\<rparr>) = (r, s3)"
      by (cases "logPaths a (s1\<lparr>s_results := a\<rparr>)")
    have "s_map s3 = s_map s1" using logPaths_map [of a "s1\<lparr>s_results := a\<rparr>"] l by simp
    with e assms False l show ?thesis by (cases r) (auto simp: explore_unfold)
  qed
  with g show ?thesis by (simp add: store_grows_def)
qed

lemma followShortestPath_map: "s_map (followShortestPath gw s) = s_map s"
proof (cases "s_results s")
  case Nil
  then show ?thesis by (simp add: followShortestPath_def)
next
  case (Cons shortest others)
  obtain ok s2 where
    f: "followSteps gw (drop 1 (pc_path shortest)) (addLog (JourneyStart (pc_length shortest)) s)
          = (ok, s2)"
    by (cases "followSteps gw (drop 1 (pc_path shortest))
                 (addLog (JourneyStart (pc_length shortest)) s)")
  from followSteps_keeps [OF f] have "s_map s2 = s_map s" by simp
  with f show ?thesis
    by (cases ok) (simp_all add: followShortestPath_Cons [OF Cons] finishExploration_def)
qed

text \<open>
  Claim C9. Recording a batch of discovered cells changes the map only at the keys of
  the batch: a key of the batch reads the last cell of the batch with that key, and
  every other key reads what it read before. Over any sequence of recorded batches no
  key is lost, the number of keys and of entries does not decrease, and a key that held
  a cell still holds one, either the same or a cell of a later batch with that key.
  The operations of a session other than \<open>reset\<close> keep to this: a run of \<open>explore\<close>
  loses no key and no entry, and \<open>followShortestPath\<close> and the stepper's tick leave the
  map as it is.
\<close>

theorem discovered_map_grows:
  "(\<forall>k. map_of (s_map (discoverCells cells s)) k
          = (case find (\<lambda>c. coordKey c = k) (rev cells) of
               Some c \<Rightarrow> Some c | None \<Rightarrow> map_of (s_map s) k))
   \<and> fst ` set (s_map s) \<subseteq> fst ` set (s_map (foldl (\<lambda>st cells. discoverCells cells st) s batches))
   \<and> card (fst ` set (s_map s))
       \<le> card (fst ` set (s_map (foldl (\<lambda>st cells. discoverCells cells st) s batches)))
   \<and> length (s_map s) \<le> length (s_map (foldl (\<lambda>st cells. discoverCells cells st) s batches))
   \<and> (\<forall>k c. map_of (s_map s) k = Some c \<longrightarrow>
         (\<exists>c'. map_of (s_map (foldl (\<lambda>st cells. discoverCells cells st) s batches)) k = Some c'
            \<and> (c' = c \<or> (\<exists>b\<in>set batches. c' \<in> set b \<and> coordKey c' = k))))
   \<and> (\<forall>s'. explore n gw s = Resolved s' \<longrightarrow>
         fst ` set (s_map s) \<subseteq> fst ` set (s_map s') \<and> length (s_map s) \<le> length (s_map s'))
   \<and> s_map (followShortestPath gw s) = s_map s
   \<and> s_map (constructor_effect gw s) = s_map s"
proof (intro conjI allI impI)
  fix s' assume x: "explore n gw s = Resolved s'"
  show "fst ` set (s_map s) \<subseteq> fst ` set (s_map s')" using explore_map_grows [OF x] by simp
  show "length (s_map s) \<le> length (s_map s')" using explore_map_grows [OF x] by simp
next
  show "s_map (followShortestPath gw s) = s_map s" by (rule followShortestPath_map)
  show "s_map (constructor_effect gw s) = s_map s" by (simp add: constructor_effect_idle)
next
  fix k
  show "map_of (s_map (discoverCells cells s)) k
          = (case find (\<lambda>c. coordKey c = k) (rev cells) of
               Some c \<Rightarrow> Some c | None \<Rightarrow> map_of (s_map s) k)"
    by (simp add: discoverCells_map fold_update_lookup)
next
  show "fst ` set (s_map s) \<subseteq> fst ` set (s_map (foldl (\<lambda>st cells. discoverCells cells st) s batches))"
    by (rule discoverCells_seq_keys)
  then show "card (fst ` set (s_map s))
       \<le> card (fst ` set (s_map (foldl (\<lambda>st cells. discoverCells cells st) s batches)))"
    by (intro card_mono) simp_all
next
  show "length (s_map s) \<le> length (s_map (foldl (\<lambda>st cells. discoverCells cells st) s batches))"
    by (rule discoverCells_seq_length)
next
  fix k c
  assume "map_of (s_map s) k = Some c"
  then show "\<exists>c'. map_of (s_map (foldl (\<lambda>st cells. discoverCells cells st) s batches)) k = Some c'
            \<and> (c' = c \<or> (\<exists>b\<in>set batches. c' \<in> set b \<and> coordKey c' = k))"
    by (rule discoverCells_seq_lookup)
qed


theorem discovered_map_grows_witness:
  "map_of (s_map (discoverCells [mk_cell 1 0 True Path, mk_cell 0 1 False Wall] started_store)) ''1,0''
     = Some (mk_cell 1 0 True Path)
   \<and> (\<exists>c'. map_of (s_map (foldl (\<lambda>st cells. discoverCells cells st)
              (discoverCells [mk_cell 1 0 True Path, mk_cell 0 1 False Wall] started_store)
              [[mk_cell 2 0 True Stop, mk_cell 1 0 True Trap], []])) ''1,0'' = Some c'
          \<and> (c' = mk_cell 1 0 True Path
             \<or> (\<exists>b\<in>set [[mk_cell 2 0 True Stop, mk_cell 1 0 True Trap], []].
                   c' \<in> set b \<and> coordKey c' = ''1,0'')))
   \<and> map (fst) (s_map (foldl (\<lambda>st cells. discoverCells cells st)
              (discoverCells [mk_cell 1 0 True Path, mk_cell 0 1 False Wall] started_store)
              [[mk_cell 2 0 True Stop, mk_cell 1 0 True Trap], []])) = [''1,0'', ''0,1'', ''2,0'']"
proof -
  let ?s = "discoverCells [mk_cell 1 0 True Path, mk_cell 0 1 False Wall] started_store"
  let ?bs = "[[mk_cell 2 0 True Stop, mk_cell 1 0 True Trap], []]"
  have h: "map_of (s_map ?s) ''1,0'' = Some (mk_cell 1 0 True Path)" by code_simp
  have k: "map (fst) (s_map (foldl (\<lambda>st cells. discoverCells cells st) ?s ?bs))
             = [''1,0'', ''0,1'', ''2,0'']" by code_simp
  from discovered_map_grows [of "[]" ?s ?bs] h
  have "\<exists>c'. map_of (s_map (foldl (\<lambda>st cells. discoverCells cells st) ?s ?bs)) ''1,0'' = Some c'
          \<and> (c' = mk_cell 1 0 True Path
             \<or> (\<exists>b\<in>set ?bs. c' \<in> set b \<and> coordKey c' = ''1,0''))"
    by blast
  with h k show ?thesis by blast
qed

end
